theory Spec2Isabelle
  imports Complex_Main "HOL-Library.Sublist" "HOL-Library.Multiset"
begin

section \<open>JavaScript values used by the transcription engine\<close>

text \<open>
  JavaScript numbers are modelled by exact arithmetic: sample counts and chunk indices are
  natural numbers, times and the sample rate are reals, percentages are integers. The one
  exception is the progress percentage of the wave loop: its quotient and its product are
  rounded to double precision as the language rounds them, because there the rounding
  decides which integer \<^verbatim>\<open>Math.round\<close> returns.
  Strings are lists of code units below 256; the white space that \<^verbatim>\<open>String.prototype.trim\<close>
  strips in that range is TAB, LF, VT, FF, CR, SPACE and NBSP.
  A thrown value is either an \<^verbatim>\<open>Error\<close> instance with its message or anything else.
\<close>

datatype JsThrown = ErrorInstance string | NonError

definition isWhiteSpace :: "char \<Rightarrow> bool" where
  "isWhiteSpace c =
     (c \<in> set [CHR 0x09, CHR 0x0A, CHR 0x0B, CHR 0x0C, CHR 0x0D, CHR 0x20, CHR 0xA0])"

definition trim :: "string \<Rightarrow> string" where
  "trim s = rev (dropWhile isWhiteSpace (rev (dropWhile isWhiteSpace s)))"

definition startsWith :: "string \<Rightarrow> string \<Rightarrow> bool" where
  "startsWith s p = (take (length p) s = p)"

subsection \<open>Double-precision arithmetic\<close>

text \<open>
  A JavaScript number is an IEEE 754 binary64 value, and \<^verbatim>\<open>/\<close> and \<^verbatim>\<open>*\<close> return the exact
  result rounded to the nearest such value, ties to the even significand. A value in the
  binade \<open>2^e \<le> |x| < 2^(e+1)\<close> is rounded to a multiple of \<open>2^(e-52)\<close>; below \<open>2^-1022\<close>
  the spacing stays \<open>2^-1074\<close>. The binade is found by search, upwards from 0 for
  \<open>|x| \<ge> 1\<close> and downwards otherwise; it is \<open>max \<lfloor>log\<^sub>2 |x|\<rfloor> (-1022)\<close> (lemma \<open>binade_log\<close>).
  Overflow to infinity is not modelled (the quantities rounded here do not exceed 90).
  \<^verbatim>\<open>Math.round\<close> is \<^term>\<open>round\<close>: the nearest integer, ties upwards.
\<close>

definition roundTiesToEven :: "real \<Rightarrow> int" where
  "roundTiesToEven y =
     (if y - of_int \<lfloor>y\<rfloor> < 1 / 2 then \<lfloor>y\<rfloor>
      else if 1 / 2 < y - of_int \<lfloor>y\<rfloor> then \<lfloor>y\<rfloor> + 1
      else if even \<lfloor>y\<rfloor> then \<lfloor>y\<rfloor> else \<lfloor>y\<rfloor> + 1)"

function binadeAbove :: "real \<Rightarrow> nat \<Rightarrow> nat" where
  "binadeAbove x k = (if x < 2 ^ (k + 1) \<or> 1023 \<le> k then k else binadeAbove x (k + 1))"
  by pat_completeness auto
termination
  by (relation "measure (\<lambda>(x, k). 1023 - k)") auto

function binadeBelow :: "real \<Rightarrow> nat \<Rightarrow> nat" where
  "binadeBelow x m = (if 1 \<le> x * 2 ^ m \<or> 1022 \<le> m then m else binadeBelow x (m + 1))"
  by pat_completeness auto
termination
  by (relation "measure (\<lambda>(x, m). 1022 - m)") auto

definition binade :: "real \<Rightarrow> int" where
  "binade x =
     (if 1 \<le> \<bar>x\<bar> then int (binadeAbove \<bar>x\<bar> 0) else - int (binadeBelow \<bar>x\<bar> 0))"

definition ulp :: "real \<Rightarrow> real" where
  "ulp x = (if 52 \<le> binade x then 2 ^ nat (binade x - 52) else 1 / 2 ^ nat (52 - binade x))"

definition roundToDouble :: "real \<Rightarrow> real" where
  "roundToDouble x =
     (if x = 0 then 0
      else sgn x * (real_of_int (roundTiesToEven (\<bar>x\<bar> / ulp x)) * ulp x))"

definition numberDivide :: "real \<Rightarrow> real \<Rightarrow> real" where
  "numberDivide a b = roundToDouble (a / b)"

definition numberTimes :: "real \<Rightarrow> real \<Rightarrow> real" where
  "numberTimes a b = roundToDouble (a * b)"

section \<open>Data model (types.ts)\<close>

datatype TranscriptionStatus = QUEUED | PROCESSING | TRANSCRIBING | DONE | ERROR

text \<open>
  \<^verbatim>\<open>CurrentTurn\<close> (RealtimeTranscriber) has \<^verbatim>\<open>startTime\<close> and \<^verbatim>\<open>text\<close>; a
  \<^verbatim>\<open>TranscriptionTurn\<close> adds \<^verbatim>\<open>endTime\<close>, which is how the source builds one:
  \<^verbatim>\<open>{...prevTurn, endTime}\<close>.
\<close>

record CurrentTurn =
  startTime :: real
  "text" :: string

record TranscriptionTurn = CurrentTurn +
  endTime :: real

text \<open>
  \<^verbatim>\<open>TranscribedFile\<close>: the \<^verbatim>\<open>file\<close> field (the browser's opaque File object) is left
  out; \<^verbatim>\<open>error\<close> is optional.
\<close>

record TranscribedFile =
  id' :: string
  status :: TranscriptionStatus
  progress :: int
  transcription :: "TranscriptionTurn list"
  error :: "string option"

text \<open>The decoded audio: the three attributes of the AudioBuffer that processFile reads.\<close>

record AudioBuffer =
  sampleRate :: real
  numberOfChannels :: nat
  length' :: nat

definition duration :: "AudioBuffer \<Rightarrow> real" where
  "duration audioBuffer = real (length' audioBuffer) / sampleRate audioBuffer"

section \<open>The batch transcription client (services/geminiService.ts)\<close>

text \<open>
  What the collaborator's \<^verbatim>\<open>generateContent\<close> call does for one request: it resolves with
  a response whose \<^verbatim>\<open>text\<close> may be undefined, or it throws.
\<close>

datatype ApiOutcome = Responds "string option" | Throws JsThrown

definition tryBody :: "ApiOutcome \<Rightarrow> JsThrown + string" where
  "tryBody outcome =
     (case outcome of
        Throws e \<Rightarrow> Inl e
      | Responds responseText \<Rightarrow> Inr (case responseText of Some s \<Rightarrow> s | None \<Rightarrow> ''''))"

text \<open>
  The result type keeps the exception channel (\<open>Inl\<close>), so that "never throws" is a
  property to prove and not a consequence of the type.
\<close>

definition transcribeAudio :: "ApiOutcome \<Rightarrow> JsThrown + string" where
  "transcribeAudio outcome =
     (case tryBody outcome of
        Inr s \<Rightarrow> Inr s
      | Inl (ErrorInstance message) \<Rightarrow> Inr (''Error: API call failed - '' @ message)
      | Inl NonError \<Rightarrow> Inr ''Error: An unknown error occurred during transcription.'')"

section \<open>Chunk planning (App.tsx, processFile)\<close>

definition CHUNK_SIZE_SECONDS :: nat where
  "CHUNK_SIZE_SECONDS = 20"

definition CONCURRENCY_LIMIT :: nat where
  "CONCURRENCY_LIMIT = 10"

definition chunkTotalSamples :: "AudioBuffer \<Rightarrow> real" where
  "chunkTotalSamples audioBuffer = real CHUNK_SIZE_SECONDS * sampleRate audioBuffer"

definition numChunksOf :: "AudioBuffer \<Rightarrow> nat" where
  "numChunksOf audioBuffer =
     nat \<lceil>real (length' audioBuffer) / chunkTotalSamples audioBuffer\<rceil>"

definition chunkStartTime :: "nat \<Rightarrow> real" where
  "chunkStartTime chunkIndex = real (chunkIndex * CHUNK_SIZE_SECONDS)"

definition chunkEndTime :: "AudioBuffer \<Rightarrow> nat \<Rightarrow> real" where
  "chunkEndTime audioBuffer chunkIndex =
     min (real ((chunkIndex + 1) * CHUNK_SIZE_SECONDS)) (duration audioBuffer)"

record ChunkResult =
  turn :: TranscriptionTurn
  index :: nat

text \<open>
  The body of the per-chunk async callback. The request of chunk \<open>chunkIndex\<close> gets the
  collaborator's outcome \<open>api chunkIndex\<close>; the callback rejects (\<open>Inl\<close>) when the awaited
  client call throws or when its answer starts with the error marker.
\<close>

definition chunkTask :: "AudioBuffer \<Rightarrow> (nat \<Rightarrow> ApiOutcome) \<Rightarrow> nat \<Rightarrow> JsThrown + ChunkResult" where
  "chunkTask audioBuffer api chunkIndex =
     (case transcribeAudio (api chunkIndex) of
        Inl e \<Rightarrow> Inl e
      | Inr transcriptionPart \<Rightarrow>
          if startsWith transcriptionPart ''Error:''
          then Inl (ErrorInstance transcriptionPart)
          else Inr \<lparr>turn = \<lparr>startTime = chunkStartTime chunkIndex,
                              text = trim transcriptionPart,
                              endTime = chunkEndTime audioBuffer chunkIndex\<rparr>,
                    index = chunkIndex\<rparr>)"

section \<open>The wave loop of processFile (App.tsx)\<close>

datatype Event = Issued nat | Settled nat | Published TranscribedFile

type_synonym Slots = "TranscriptionTurn option list"

definition chunkBatchIndices :: "nat \<Rightarrow> nat \<Rightarrow> nat list" where
  "chunkBatchIndices i numChunks =
     map (\<lambda>k. i + k) [0 ..< min CONCURRENCY_LIMIT (numChunks - i)]"

fun settleUntilReject :: "(nat \<Rightarrow> JsThrown + 'r) \<Rightarrow> nat list \<Rightarrow> nat list \<times> JsThrown option" where
  "settleUntilReject task [] = ([], None)"
| "settleUntilReject task (c # cs) =
     (case task c of
        Inl e \<Rightarrow> ([c], Some e)
      | Inr r \<Rightarrow> (case settleUntilReject task cs of
                   (settled, rejection) \<Rightarrow> (c # settled, rejection)))"

definition fulfilled :: "(nat \<Rightarrow> JsThrown + 'r) \<Rightarrow> nat list \<Rightarrow> 'r list" where
  "fulfilled task batch = concat (map (\<lambda>c. case task c of Inr r \<Rightarrow> [r] | Inl e \<Rightarrow> []) batch)"

definition promiseAll ::
  "(nat \<Rightarrow> JsThrown + 'r) \<Rightarrow> (nat \<Rightarrow> nat) \<Rightarrow> nat list \<Rightarrow> Event list \<times> (JsThrown + 'r list)" where
  "promiseAll task latency batch =
     (case settleUntilReject task (sort_key latency batch) of
        (settled, Some e) \<Rightarrow> (map Issued batch @ map Settled settled, Inl e)
      | (settled, None) \<Rightarrow> (map Issued batch @ map Settled settled, Inr (fulfilled task batch)))"

definition place :: "Slots \<Rightarrow> ChunkResult \<Rightarrow> Slots" where
  "place slots result =
     (if index result < length slots then slots[index result := Some (turn result)]
      else slots @ replicate (index result - length slots) None @ [Some (turn result)])"

definition filterBoolean :: "Slots \<Rightarrow> TranscriptionTurn list" where
  "filterBoolean slots = concat (map (\<lambda>slot. case slot of Some t \<Rightarrow> [t] | None \<Rightarrow> []) slots)"

definition sortedTurns :: "Slots \<Rightarrow> TranscriptionTurn list" where
  "sortedTurns slots = sort_key startTime (filterBoolean slots)"

function transcribeLoop ::
  "AudioBuffer \<Rightarrow> (nat \<Rightarrow> ApiOutcome) \<Rightarrow> (nat \<Rightarrow> nat) \<Rightarrow> nat \<Rightarrow> nat \<Rightarrow> Slots \<Rightarrow> nat \<Rightarrow>
   TranscribedFile \<Rightarrow> Event list \<times> TranscribedFile \<times> (JsThrown + Slots)" where
  "transcribeLoop audioBuffer api latency numChunks i fullTranscriptionTurns chunksProcessed job =
     (if i < numChunks then
        (case promiseAll (chunkTask audioBuffer api) latency (chunkBatchIndices i numChunks) of
           (evs, Inl e) \<Rightarrow> (evs, job, Inl e)
         | (evs, Inr results) \<Rightarrow>
             (let slots' = foldl place fullTranscriptionTurns results;
                  chunksProcessed' = chunksProcessed + length results;
                  currentTurns = sortedTurns slots';
                  job' = job\<lparr>progress :=
                               5 + round (numberTimes
                                 (numberDivide (real chunksProcessed') (real numChunks)) 90),
                             transcription := currentTurns\<rparr>
              in case transcribeLoop audioBuffer api latency numChunks (i + CONCURRENCY_LIMIT)
                        slots' chunksProcessed' job' of
                   (evs', rest) \<Rightarrow> (evs @ Published job' # evs', rest)))
      else ([], job, Inr fullTranscriptionTurns))"
  by pat_completeness auto
termination
  by (relation "measure (\<lambda>(audioBuffer, api, latency, numChunks, i, rest). numChunks - i)")
     (auto simp: CONCURRENCY_LIMIT_def)

definition catchHandler :: "JsThrown \<Rightarrow> TranscribedFile \<Rightarrow> TranscribedFile" where
  "catchHandler thrown job =
     job\<lparr>status := ERROR,
         error := Some (case thrown of ErrorInstance message \<Rightarrow> message
                                     | NonError \<Rightarrow> ''An unknown error occurred.''),
         progress := 0\<rparr>"

definition processFile ::
  "TranscribedFile option \<Rightarrow> JsThrown + AudioBuffer \<Rightarrow> (nat \<Rightarrow> ApiOutcome) \<Rightarrow> (nat \<Rightarrow> nat) \<Rightarrow>
   Event list" where
  "processFile fileItem decoded api latency =
     (case fileItem of
        None \<Rightarrow> []
      | Some file0 \<Rightarrow>
          (let job1 = file0\<lparr>status := PROCESSING, progress := 5\<rparr> in
           case decoded of
             Inl e \<Rightarrow> [Published job1, Published (catchHandler e job1)]
           | Inr audioBuffer \<Rightarrow>
               (let numChunks = numChunksOf audioBuffer;
                    job2 = job1\<lparr>status := TRANSCRIBING\<rparr>
                in case transcribeLoop audioBuffer api latency numChunks 0
                          (replicate numChunks None) 0 job2 of
                     (evs, job3, Inl e) \<Rightarrow>
                       Published job1 # Published job2 # evs @ [Published (catchHandler e job3)]
                   | (evs, job3, Inr slots) \<Rightarrow>
                       Published job1 # Published job2 # evs @
                         [Published (job3\<lparr>status := DONE, progress := 100,
                                           transcription := sortedTurns slots\<rparr>)])))"



definition chunkTurn :: "AudioBuffer \<Rightarrow> (nat \<Rightarrow> ApiOutcome) \<Rightarrow> nat \<Rightarrow> TranscriptionTurn" where
  "chunkTurn audioBuffer api k =
     \<lparr>startTime = chunkStartTime k,
      text = trim (case transcribeAudio (api k) of Inr s \<Rightarrow> s | Inl e \<Rightarrow> []),
      endTime = chunkEndTime audioBuffer k\<rparr>"

definition slotsUpTo :: "AudioBuffer \<Rightarrow> (nat \<Rightarrow> ApiOutcome) \<Rightarrow> nat \<Rightarrow> nat \<Rightarrow> Slots" where
  "slotsUpTo audioBuffer api numChunks c =
     map (\<lambda>k. if k < c then Some (chunkTurn audioBuffer api k) else None) [0 ..< numChunks]"

definition waveJob ::
  "AudioBuffer \<Rightarrow> (nat \<Rightarrow> ApiOutcome) \<Rightarrow> nat \<Rightarrow> nat \<Rightarrow> TranscribedFile \<Rightarrow> TranscribedFile" where
  "waveJob audioBuffer api numChunks c job =
     job\<lparr>progress := 5 + round (numberTimes (numberDivide (real c) (real numChunks)) 90),
         transcription := map (chunkTurn audioBuffer api) [0 ..< c]\<rparr>"


text \<open>
  The job as handleFileChange creates it; processFile runs only on such a job (the
  watcher picks a file whose status is still QUEUED).
\<close>

definition newFile :: "string \<Rightarrow> TranscribedFile" where
  "newFile name =
     \<lparr>id' = name, status = QUEUED, progress = 0, transcription = [], error = None\<rparr>"

subsection \<open>Observations on a trace\<close>

definition issuedOf :: "Event list \<Rightarrow> nat list" where
  "issuedOf evs = concat (map (\<lambda>ev. case ev of Issued j \<Rightarrow> [j] | _ \<Rightarrow> []) evs)"

definition settledOf :: "Event list \<Rightarrow> nat list" where
  "settledOf evs = concat (map (\<lambda>ev. case ev of Settled j \<Rightarrow> [j] | _ \<Rightarrow> []) evs)"

definition publishedOf :: "Event list \<Rightarrow> TranscribedFile list" where
  "publishedOf evs = concat (map (\<lambda>ev. case ev of Published job \<Rightarrow> [job] | _ \<Rightarrow> []) evs)"

text \<open>The requests that are outstanding after a trace, starting from the set \<open>pending\<close>.\<close>

fun outstandingAfter :: "nat set \<Rightarrow> Event list \<Rightarrow> nat set" where
  "outstandingAfter pending [] = pending"
| "outstandingAfter pending (Issued j # evs) = outstandingAfter (insert j pending) evs"
| "outstandingAfter pending (Settled j # evs) = outstandingAfter (pending - {j}) evs"
| "outstandingAfter pending (Published job # evs) = outstandingAfter pending evs"

text \<open>
  The waves of a job with \<open>numChunks\<close> segments: the batches that the loop header
  \<^verbatim>\<open>for (i = 0; i < numChunks; i += CONCURRENCY_LIMIT)\<close> builds, one per value of \<open>i\<close>.
\<close>

definition waves :: "nat \<Rightarrow> nat list list" where
  "waves numChunks =
     map (\<lambda>w. chunkBatchIndices (w * CONCURRENCY_LIMIT) numChunks)
       [0 ..< (numChunks + CONCURRENCY_LIMIT - 1) div CONCURRENCY_LIMIT]"

abbreviation loopFrom ::
  "AudioBuffer \<Rightarrow> (nat \<Rightarrow> ApiOutcome) \<Rightarrow> (nat \<Rightarrow> nat) \<Rightarrow> nat \<Rightarrow> nat \<Rightarrow> TranscribedFile \<Rightarrow>
   Event list \<times> TranscribedFile \<times> (JsThrown + Slots)" where
  "loopFrom audioBuffer api latency numChunks i job \<equiv>
     transcribeLoop audioBuffer api latency numChunks i
       (slotsUpTo audioBuffer api numChunks (min i numChunks)) (min i numChunks) job"

subsection \<open>A sample job\<close>

text \<open>
  A mono recording of 227 seconds at 8 kHz: twelve segments, hence two waves. The
  collaborator either answers every request, or fails the two requests of the second wave
  (one by throwing, one by answering with the error marker). Later requests answer first.
\<close>

definition demoBuffer :: AudioBuffer where
  "demoBuffer = \<lparr>sampleRate = 8000, numberOfChannels = 1, length' = 1816000\<rparr>"

text \<open>A mono recording of 4000 seconds at 8 kHz: two hundred segments, twenty waves.\<close>

definition hourBuffer :: AudioBuffer where
  "hourBuffer = \<lparr>sampleRate = 8000, numberOfChannels = 1, length' = 32000000\<rparr>"

definition demoApi :: "nat \<Rightarrow> ApiOutcome" where
  "demoApi i = Responds (Some '' ok '')"

definition demoFailingApi :: "nat \<Rightarrow> ApiOutcome" where
  "demoFailingApi i =
     (if i = 10 then Throws (ErrorInstance ''quota'')
      else if i = 11 then Responds (Some ''Error: busy'')
      else Responds (Some '' ok ''))"

definition demoLatency :: "nat \<Rightarrow> nat" where
  "demoLatency i = 20 - i"

definition demoJob :: TranscribedFile where
  "demoJob = (newFile ''a.wav'')\<lparr>status := PROCESSING, progress := 5, status := TRANSCRIBING\<rparr>"

section \<open>The live transcriber (components/RealtimeTranscriber.tsx)\<close>

text \<open>
  The component's state: its React state variables (the two that only drive the display,
  \<^verbatim>\<open>isDownloadOpen\<close> and \<^verbatim>\<open>isCopied\<close>, are left out) and its refs. A ref that holds a
  browser object is an option of what the code reads of that object: nothing for the
  stream, the processor and the gain node, the state for an audio context, and for the
  session promise whether it resolves (and whether \<^verbatim>\<open>close\<close> then throws) or rejects.
  A value passed to a state setter is taken to apply in program order, and an assignment
  to a ref takes effect at once. An updater function passed to a setter is queued: React
  calls it when it renders the component again, after the handler's remaining statements.
  Each handler, with the render that follows it, runs to its end without another one in
  between; the clock \<^verbatim>\<open>performance.now()\<close> is passed as \<open>now\<close>, in milliseconds.
\<close>

datatype AudioContextState = Suspended | Running | Closed

datatype SessionPromise = Connected bool | ConnectFailed

record LiveState =
  isRecording :: bool
  transcript :: "TranscriptionTurn list"
  currentTurn :: "CurrentTurn option"
  error' :: "string option"
  sessionPromiseRef :: "SessionPromise option"
  streamRef :: "unit option"
  audioContextRef :: "AudioContextState option"
  outputAudioContextRef :: "AudioContextState option"
  outputGainNodeRef :: "unit option"
  scriptProcessorRef :: "unit option"
  recordingStartTimeRef :: "real option"

text \<open>What stopRecording does to the outside world, in order.\<close>

datatype Effect =
    StopTracks | DisconnectProcessor | CloseInputContext | CloseOutputContext
  | CloseSession | LogCloseError

definition initialLive :: LiveState where
  "initialLive =
     \<lparr>isRecording = False, transcript = [], currentTurn = None, error' = None,
      sessionPromiseRef = None, streamRef = None, audioContextRef = None,
      outputAudioContextRef = None, outputGainNodeRef = None, scriptProcessorRef = None,
      recordingStartTimeRef = None\<rparr>"

subsection \<open>stopRecording\<close>

definition releaseStream :: "LiveState \<Rightarrow> Effect list \<times> LiveState" where
  "releaseStream s =
     (case streamRef s of
        Some stream \<Rightarrow> ([StopTracks], s\<lparr>streamRef := None\<rparr>)
      | None \<Rightarrow> ([], s))"

definition releaseProcessor :: "LiveState \<Rightarrow> Effect list \<times> LiveState" where
  "releaseProcessor s =
     (case scriptProcessorRef s of
        Some node \<Rightarrow> ([DisconnectProcessor], s\<lparr>scriptProcessorRef := None\<rparr>)
      | None \<Rightarrow> ([], s))"

definition closeInputContext :: "LiveState \<Rightarrow> Effect list \<times> LiveState" where
  "closeInputContext s =
     (case audioContextRef s of
        Some state \<Rightarrow>
          if state \<noteq> Closed then ([CloseInputContext], s\<lparr>audioContextRef := None\<rparr>)
          else ([], s)
      | None \<Rightarrow> ([], s))"

definition closeOutputContext :: "LiveState \<Rightarrow> Effect list \<times> LiveState" where
  "closeOutputContext s =
     (case outputAudioContextRef s of
        Some state \<Rightarrow>
          if state \<noteq> Closed
          then ([CloseOutputContext],
                s\<lparr>outputAudioContextRef := None, outputGainNodeRef := None\<rparr>)
          else ([], s)
      | None \<Rightarrow> ([], s))"

definition closeSession :: "LiveState \<Rightarrow> Effect list \<times> LiveState" where
  "closeSession s =
     (case sessionPromiseRef s of
        Some (Connected closeThrows) \<Rightarrow>
          (CloseSession # (if closeThrows then [LogCloseError] else []),
           s\<lparr>sessionPromiseRef := None\<rparr>)
      | Some ConnectFailed \<Rightarrow> ([LogCloseError], s\<lparr>sessionPromiseRef := None\<rparr>)
      | None \<Rightarrow> ([], s))"

text \<open>
  A number or null used as a condition: null, 0 (and NaN, which the clock never gives)
  are falsy.
\<close>

definition truthyNumber :: "real option \<Rightarrow> bool" where
  "truthyNumber ref = (case ref of Some x \<Rightarrow> x \<noteq> 0 | None \<Rightarrow> False)"

definition withEndTime :: "CurrentTurn \<Rightarrow> real \<Rightarrow> TranscriptionTurn" where
  "withEndTime prevTurn t = \<lparr>startTime = startTime prevTurn, text = text prevTurn, endTime = t\<rparr>"

text \<open>
  The end time that the updater of stopRecording computes,
  \<^verbatim>\<open>(performance.now() - ref) / 1000\<close>; it is computed only when the ref is truthy (in the
  subtraction null would count as 0). \<open>finalizeOnStop now s\<close> is the updater called at clock
  \<open>now\<close> on the state \<open>s\<close> that it finds.
\<close>

definition sinceStart :: "real \<Rightarrow> real option \<Rightarrow> real" where
  "sinceStart now ref = (now - (case ref of Some start \<Rightarrow> start | None \<Rightarrow> 0)) / 1000"

definition finalizeOnStop :: "real \<Rightarrow> LiveState \<Rightarrow> LiveState" where
  "finalizeOnStop now s =
     (case currentTurn s of
        Some prevTurn \<Rightarrow>
          (if trim (text prevTurn) \<noteq> [] \<and> truthyNumber (recordingStartTimeRef s)
           then s\<lparr>transcript := transcript s @
                    [withEndTime prevTurn (sinceStart now (recordingStartTimeRef s))]\<rparr>
           else s)\<lparr>currentTurn := None\<rparr>
      | None \<Rightarrow> s\<lparr>currentTurn := None\<rparr>)"

text \<open>
  stopRecording ends with \<^verbatim>\<open>setCurrentTurn(prevTurn => ...)\<close> followed by
  \<^verbatim>\<open>recordingStartTimeRef.current = null\<close>. The first statement only queues the updater
  \<open>finalizeOnStop\<close>; the second clears the reference at once. The updater therefore runs
  on a state whose start reference is already null, which is what its guard reads.
\<close>

definition stopRecording :: "real \<Rightarrow> LiveState \<Rightarrow> Effect list \<times> LiveState" where
  "stopRecording now s =
     (case releaseStream (s\<lparr>isRecording := False\<rparr>) of (e1, s1) \<Rightarrow>
      case releaseProcessor s1 of (e2, s2) \<Rightarrow>
      case closeInputContext s2 of (e3, s3) \<Rightarrow>
      case closeOutputContext s3 of (e4, s4) \<Rightarrow>
      case closeSession s4 of (e5, s5) \<Rightarrow>
        (e1 @ e2 @ e3 @ e4 @ e5,
         finalizeOnStop now (s5\<lparr>recordingStartTimeRef := None\<rparr>)))"

subsection \<open>The message handler\<close>

text \<open>
  What onmessage reads of a server message: the text of the input transcription, if any,
  the turn-complete flag, and whether the model sent audio (played muted; it changes none
  of the state below).
\<close>

record LiveServerMessage =
  inputTranscriptionText :: "string option"
  turnComplete :: bool
  modelAudio :: "string option"

definition elapsedTime :: "real \<Rightarrow> LiveState \<Rightarrow> real" where
  "elapsedTime now s =
     (now - (case recordingStartTimeRef s of Some start \<Rightarrow> start | None \<Rightarrow> now)) / 1000"

definition onInputTranscription :: "real \<Rightarrow> string \<Rightarrow> LiveState \<Rightarrow> LiveState" where
  "onInputTranscription now fragment s =
     (case currentTurn s of
        Some prevTurn \<Rightarrow> s\<lparr>currentTurn := Some (prevTurn\<lparr>text := text prevTurn @ fragment\<rparr>)\<rparr>
      | None \<Rightarrow>
          s\<lparr>currentTurn := Some \<lparr>startTime = elapsedTime now s, text = fragment\<rparr>\<rparr>)"

definition onTurnComplete :: "real \<Rightarrow> LiveState \<Rightarrow> LiveState" where
  "onTurnComplete now s =
     (case currentTurn s of
        Some prevTurn \<Rightarrow>
          (if trim (text prevTurn) \<noteq> []
           then s\<lparr>transcript := transcript s @ [withEndTime prevTurn (elapsedTime now s)]\<rparr>
           else s)\<lparr>currentTurn := None\<rparr>
      | None \<Rightarrow> s\<lparr>currentTurn := None\<rparr>)"

definition onmessage :: "real \<Rightarrow> LiveServerMessage \<Rightarrow> LiveState \<Rightarrow> LiveState" where
  "onmessage now message s =
     (let s1 = (case inputTranscriptionText message of
                  Some fragment \<Rightarrow>
                    if fragment \<noteq> [] then onInputTranscription now fragment s else s
                | None \<Rightarrow> s)
      in if turnComplete message then onTurnComplete now s1 else s1)"

subsection \<open>The other handlers, and runs of the component\<close>

definition startRecording :: "real \<Rightarrow> LiveState \<Rightarrow> LiveState" where
  "startRecording now s =
     s\<lparr>isRecording := True, error' := None, transcript := [], currentTurn := None,
       recordingStartTimeRef := Some now\<rparr>"

definition startFailed :: "JsThrown \<Rightarrow> LiveState \<Rightarrow> LiveState" where
  "startFailed err s =
     s\<lparr>error' := Some (''Failed to start recording: '' @
                (case err of ErrorInstance message \<Rightarrow> message
                           | NonError \<Rightarrow> ''An unknown error occurred.'')),
       isRecording := False\<rparr>"

definition onerror :: "real \<Rightarrow> string option \<Rightarrow> LiveState \<Rightarrow> LiveState" where
  "onerror now message s =
     snd (stopRecording now
       (s\<lparr>error' := Some (''Error: '' @
              (case message of
                 Some m \<Rightarrow> if m \<noteq> [] then m
                           else ''A network error occurred with the transcription service.''
               | None \<Rightarrow> ''A network error occurred with the transcription service.''))\<rparr>))"

definition handleReset :: "LiveState \<Rightarrow> LiveState" where
  "handleReset s = s\<lparr>transcript := [], currentTurn := None, error' := None\<rparr>"

datatype LiveEvent =
    Start
  | StreamAcquired
  | Connecting SessionPromise
  | Opened
  | StartFailed JsThrown
  | Message LiveServerMessage
  | ChannelError "string option"
  | Stop
  | Reset

fun liveStep :: "real \<times> LiveEvent \<Rightarrow> LiveState \<Rightarrow> LiveState" where
  "liveStep (now, Start) s = startRecording now s"
| "liveStep (now, StreamAcquired) s = s\<lparr>streamRef := Some ()\<rparr>"
| "liveStep (now, Connecting promise) s = s\<lparr>sessionPromiseRef := Some promise\<rparr>"
| "liveStep (now, Opened) s =
     s\<lparr>audioContextRef := Some Running, scriptProcessorRef := Some (),
       outputAudioContextRef := Some Running, outputGainNodeRef := Some ()\<rparr>"
| "liveStep (now, StartFailed err) s = startFailed err s"
| "liveStep (now, Message message) s = onmessage now message s"
| "liveStep (now, ChannelError message) s = onerror now message s"
| "liveStep (now, Stop) s = snd (stopRecording now s)"
| "liveStep (now, Reset) s = handleReset s"

definition runLive :: "(real \<times> LiveEvent) list \<Rightarrow> LiveState" where
  "runLive events = foldl (\<lambda>s ev. liveStep ev s) initialLive events"

text \<open>
  A timed run: the clock starts above 0 at the first event (the page has loaded before any
  handler runs) and never goes back.
\<close>

definition timedRun :: "(real \<times> LiveEvent) list \<Rightarrow> real \<Rightarrow> bool" where
  "timedRun events now \<longleftrightarrow>
     0 < now \<and> sorted (map fst events) \<and>
     list_all (\<lambda>ev. 0 < fst ev \<and> fst ev \<le> now) events"

text \<open>
  The invariant of a timed run: the start reference is a positive reading of the clock,
  not in the future, and the active turn started no later than the clock now shows.
\<close>

definition turnStamped :: "real \<Rightarrow> LiveState \<Rightarrow> bool" where
  "turnStamped now s \<longleftrightarrow>
     (case recordingStartTimeRef s of None \<Rightarrow> True | Some start \<Rightarrow> 0 < start \<and> start \<le> now)
     \<and> (case currentTurn s of None \<Rightarrow> True | Some t \<Rightarrow> startTime t \<le> elapsedTime now s)"

definition whitespaceOnly :: "string \<Rightarrow> bool" where
  "whitespaceOnly str = list_all isWhiteSpace str"

text \<open>The resources of a state once stopRecording has released them, in closed form.\<close>

definition released :: "LiveState \<Rightarrow> LiveState" where
  "released s =
     s\<lparr>isRecording := False, streamRef := None, scriptProcessorRef := None,
       audioContextRef := (if audioContextRef s = Some Closed then Some Closed else None),
       outputAudioContextRef :=
         (if outputAudioContextRef s = Some Closed then Some Closed else None),
       outputGainNodeRef :=
         (if outputAudioContextRef s = None \<or> outputAudioContextRef s = Some Closed
          then outputGainNodeRef s else None),
       sessionPromiseRef := None\<rparr>"

subsection \<open>A sample session\<close>

text \<open>
  A session started one second after the page loaded; the collaborator sends two
  fragments of one turn (or, in the second run, a fragment of blanks only).
\<close>

definition demoEvents :: "(real \<times> LiveEvent) list" where
  "demoEvents =
     [(1000, Start), (1200, StreamAcquired), (1250, Connecting (Connected False)),
      (1400, Opened),
      (1500, Message \<lparr>inputTranscriptionText = Some ''Hello '', turnComplete = False,
                       modelAudio = None\<rparr>),
      (2000, Message \<lparr>inputTranscriptionText = Some ''world'', turnComplete = False,
                       modelAudio = None\<rparr>)]"

definition demoBlankEvents :: "(real \<times> LiveEvent) list" where
  "demoBlankEvents =
     [(1000, Start),
      (1500, Message \<lparr>inputTranscriptionText = Some ''  '', turnComplete = False,
                       modelAudio = None\<rparr>)]"

section \<open>Rounding to double precision\<close>

lemma roundTiesToEven_of_int: "roundTiesToEven (of_int n) = n"
  by (simp add: roundTiesToEven_def)

lemma roundTiesToEven_bounds: "\<lfloor>y\<rfloor> \<le> roundTiesToEven y" "roundTiesToEven y \<le> \<lfloor>y\<rfloor> + 1"
  by (simp_all add: roundTiesToEven_def)

lemma roundTiesToEven_error: "\<bar>real_of_int (roundTiesToEven y) - y\<bar> \<le> 1 / 2"
  unfolding roundTiesToEven_def by (auto simp: abs_if) linarith+

lemma roundTiesToEven_mono:
  assumes "x \<le> y"
  shows "roundTiesToEven x \<le> roundTiesToEven y"
proof (cases "\<lfloor>x\<rfloor> = \<lfloor>y\<rfloor>")
  case True
  have "x - of_int \<lfloor>x\<rfloor> \<le> y - of_int \<lfloor>y\<rfloor>" using assms True by simp
  then show ?thesis unfolding roundTiesToEven_def True by auto
next
  case False
  have "\<lfloor>x\<rfloor> \<le> \<lfloor>y\<rfloor>" using assms by (rule floor_mono)
  with False have "\<lfloor>x\<rfloor> + 1 \<le> \<lfloor>y\<rfloor>" by simp
  then show ?thesis using roundTiesToEven_bounds(2) [of x] roundTiesToEven_bounds(1) [of y] by linarith
qed

declare binadeAbove.simps [simp del] binadeBelow.simps [simp del]

lemma binadeAbove_spec:
  "2 ^ k \<le> x \<Longrightarrow> x < 2 ^ 1024 \<Longrightarrow> k \<le> 1023 \<Longrightarrow>
     2 ^ binadeAbove x k \<le> x \<and> x < 2 ^ (binadeAbove x k + 1) \<and> binadeAbove x k \<le> 1023"
proof (induction x k rule: binadeAbove.induct)
  case (1 x k)
  show ?case
  proof (cases "x < 2 ^ (k + 1)")
    case True
    then have "binadeAbove x k = k" by (subst binadeAbove.simps) simp
    with True 1(2,4) show ?thesis by simp
  next
    case False
    have k: "k < 1023"
    proof (rule ccontr)
      assume "\<not> k < 1023"
      with 1(4) have "k = 1023" by simp
      with False 1(3) show False by simp
    qed
    then have nk: "\<not> (x < 2 ^ (k + 1) \<or> 1023 \<le> k)" using False by simp
    have e: "binadeAbove x k = binadeAbove x (k + 1)"
      by (subst binadeAbove.simps) (simp only: nk if_False)
    have "2 ^ (k + 1) \<le> x" using False by simp
    from 1(1) [OF nk this 1(3)] k show ?thesis unfolding e by simp
  qed
qed

lemma binadeBelow_spec:
  "x * 2 ^ m < 2 \<Longrightarrow> m \<le> 1022 \<Longrightarrow>
     x * 2 ^ binadeBelow x m < 2 \<and> binadeBelow x m \<le> 1022 \<and>
     (1 \<le> x * 2 ^ binadeBelow x m \<or> binadeBelow x m = 1022)"
proof (induction x m rule: binadeBelow.induct)
  case (1 x m)
  show ?case
  proof (cases "1 \<le> x * 2 ^ m \<or> 1022 \<le> m")
    case True
    then have "binadeBelow x m = m" by (subst binadeBelow.simps) simp
    with True 1(2,3) show ?thesis by auto
  next
    case False
    have e: "binadeBelow x m = binadeBelow x (m + 1)"
      by (subst binadeBelow.simps) (simp only: False if_False)
    have "x * 2 ^ (m + 1) < 2" using False by simp
    moreover have "m + 1 \<le> 1022" using False by simp
    ultimately show ?thesis unfolding e by (rule 1(1) [OF False])
  qed
qed

lemma floor_log2_eq:
  assumes "0 < x" "2 powr real_of_int k \<le> x" "x < 2 powr real_of_int (k + 1)"
  shows "\<lfloor>log 2 x\<rfloor> = k"
proof -
  have "log 2 (2 powr real_of_int k) \<le> log 2 x" using assms by (simp del: log_powr_cancel)
  then have a: "real_of_int k \<le> log 2 x" by simp
  have "log 2 x < log 2 (2 powr real_of_int (k + 1))" using assms by (simp del: log_powr_cancel)
  then have b: "log 2 x < real_of_int k + 1" by simp
  show ?thesis using a b by (intro floor_unique) simp_all
qed

lemma binade_log:
  assumes x: "0 < x" and fin: "x < 2 ^ 1024"
  shows "binade x = max \<lfloor>log 2 x\<rfloor> (- 1022)"
proof (cases "1 \<le> x")
  case True
  let ?k = "binadeAbove x 0"
  have b: "binade x = int ?k" using True x by (simp add: binade_def)
  from binadeAbove_spec [of 0 x] True fin
  have k: "2 ^ ?k \<le> x" "x < 2 ^ (?k + 1)" by simp_all
  have "\<lfloor>log 2 x\<rfloor> = int ?k"
  proof (rule floor_log2_eq [OF x])
    show "2 powr real_of_int (int ?k) \<le> x" using k(1) by (simp add: powr_realpow)
    have "2 powr real_of_int (int ?k + 1) = 2 ^ (?k + 1)"
      using powr_realpow [of 2 "?k + 1"] by (simp add: add.commute)
    then show "x < 2 powr real_of_int (int ?k + 1)" using k(2) by simp
  qed
  then show ?thesis unfolding b by simp
next
  case False
  let ?m = "binadeBelow x 0"
  have b: "binade x = - int ?m" using False x by (simp add: binade_def)
  from binadeBelow_spec [of x 0] False
  have m: "x * 2 ^ ?m < 2" "?m \<le> 1022" "1 \<le> x * 2 ^ ?m \<or> ?m = 1022" by simp_all
  have p: "2 powr real_of_int (- int ?m) = 1 / 2 ^ ?m"
    by (simp add: powr_minus powr_realpow field_simps)
  have hi: "x < 2 powr real_of_int (- int ?m + 1)"
  proof -
    have "2 powr real_of_int (- int ?m + 1) = 2 powr (1 - real ?m)" by simp
    also have "\<dots> = 2 / 2 ^ ?m" by (simp add: powr_diff powr_realpow)
    finally have e: "2 powr real_of_int (- int ?m + 1) = 2 / 2 ^ ?m" .
    have "x < 2 / 2 ^ ?m" using m(1) by (simp add: field_simps)
    then show ?thesis by (simp only: e)
  qed
  show ?thesis
  proof (cases "1 \<le> x * 2 ^ ?m")
    case True
    then have "2 powr real_of_int (- int ?m) \<le> x" unfolding p by (simp add: field_simps)
    from floor_log2_eq [OF x this hi] m(2) show ?thesis unfolding b by simp
  next
    case False
    with m(3) have m22: "?m = 1022" by simp
    have "log 2 x < log 2 (2 powr real_of_int (- int ?m + 1))"
      using hi x by (simp del: log_powr_cancel)
    then have "log 2 x < real_of_int (- int ?m + 1)" by simp
    then have "\<lfloor>log 2 x\<rfloor> < - int ?m + 1" by linarith
    then show ?thesis unfolding b m22 by simp
  qed
qed

lemma ulp_powr: "ulp x = 2 powr real_of_int (binade x - 52)"
proof (cases "52 \<le> binade x")
  case True
  then have "real_of_int (binade x - 52) = real (nat (binade x - 52))" by simp
  then have "2 powr real_of_int (binade x - 52) = 2 ^ nat (binade x - 52)"
    by (simp only: powr_realpow zero_less_numeral)
  with True show ?thesis by (simp add: ulp_def)
next
  case False
  then have "real_of_int (binade x - 52) = - real (nat (52 - binade x))" by simp
  then have "2 powr real_of_int (binade x - 52) = 1 / 2 ^ nat (52 - binade x)"
    by (simp only: powr_minus powr_realpow zero_less_numeral) (simp add: field_simps)
  with False show ?thesis by (simp add: ulp_def)
qed

lemma ulp_pos: "0 < ulp x"
  by (simp add: ulp_powr)

lemma below_next_binade:
  assumes "0 < x" "x < 2 ^ 1024"
  shows "x < 2 powr real_of_int (binade x + 1)"
proof -
  have "log 2 x < real_of_int (\<lfloor>log 2 x\<rfloor> + 1)" by linarith
  also have "\<dots> \<le> real_of_int (binade x + 1)" by (simp add: binade_log [OF assms])
  finally have "2 powr log 2 x < 2 powr real_of_int (binade x + 1)"
    by (simp only: powr_less_cancel_iff)
  then show ?thesis using assms by simp
qed

lemma above_binade:
  assumes "0 < x" "x < 2 ^ 1024" "- 1022 \<le> \<lfloor>log 2 x\<rfloor>"
  shows "2 powr real_of_int (binade x) \<le> x"
proof -
  have "binade x = \<lfloor>log 2 x\<rfloor>" using assms(3) by (simp add: binade_log [OF assms(1,2)])
  then have "real_of_int (binade x) \<le> log 2 x" by simp
  then have "2 powr real_of_int (binade x) \<le> 2 powr log 2 x" by simp
  then show ?thesis using assms by simp
qed

lemma binade_mono:
  assumes "0 < x" "x \<le> y" "y < 2 ^ 1024"
  shows "binade x \<le> binade y"
proof -
  have x: "x < 2 ^ 1024" and y: "0 < y" using assms by simp_all
  have "log 2 x \<le> log 2 y" using assms by simp
  then have "\<lfloor>log 2 x\<rfloor> \<le> \<lfloor>log 2 y\<rfloor>" by (rule floor_mono)
  then show ?thesis
    unfolding binade_log [OF assms(1) x] binade_log [OF y assms(3)] by simp
qed

lemma double_pos:
  "0 < x \<Longrightarrow> roundToDouble x = real_of_int (roundTiesToEven (x / ulp x)) * ulp x"
  by (simp add: roundToDouble_def)

lemma scaled_below:
  assumes "0 < x" "x < 2 ^ 1024"
  shows "x / ulp x < 2 ^ 53"
proof -
  have "x / ulp x < 2 powr real_of_int (binade x + 1) / ulp x"
    using below_next_binade [OF assms] ulp_pos by (simp add: divide_strict_right_mono)
  also have "\<dots> = 2 powr (real_of_int (binade x + 1) - real_of_int (binade x - 52))"
    unfolding ulp_powr by (simp only: powr_diff)
  also have "\<dots> = 2 powr 53" by simp
  also have "\<dots> = 2 ^ 53" by (simp only: powr_numeral)
  finally show ?thesis .
qed

lemma scaled_above:
  assumes "0 < x" "x < 2 ^ 1024" "- 1022 \<le> \<lfloor>log 2 x\<rfloor>"
  shows "2 ^ 52 \<le> x / ulp x"
proof -
  have "2 powr real_of_int (binade x) / ulp x \<le> x / ulp x"
    by (rule divide_right_mono [OF above_binade [OF assms] less_imp_le [OF ulp_pos]])
  moreover have "2 powr real_of_int (binade x) / ulp x =
      2 powr (real_of_int (binade x) - real_of_int (binade x - 52))"
    unfolding ulp_powr by (simp only: powr_diff)
  moreover have "2 powr (real_of_int (binade x) - real_of_int (binade x - 52)) = 2 powr 52"
    by simp
  moreover have "(2::real) powr 52 = 2 ^ 52" by (simp only: powr_numeral)
  ultimately show ?thesis by simp
qed

lemma double_upper:
  assumes "0 < x" "x < 2 ^ 1024"
  shows "roundToDouble x \<le> 2 powr real_of_int (binade x + 1)"
proof -
  have "roundTiesToEven (x / ulp x) \<le> roundTiesToEven (of_int (2 ^ 53))"
    using scaled_below [OF assms] by (intro roundTiesToEven_mono) simp
  then have "roundTiesToEven (x / ulp x) \<le> 2 ^ 53" by (simp only: roundTiesToEven_of_int)
  then have "real_of_int (roundTiesToEven (x / ulp x)) \<le> 2 ^ 53"
    by (metis of_int_le_iff of_int_numeral of_int_power)
  then have "roundToDouble x \<le> 2 ^ 53 * ulp x"
    unfolding double_pos [OF assms(1)] using ulp_pos by (simp add: mult_right_mono)
  also have "\<dots> = 2 powr 53 * 2 powr real_of_int (binade x - 52)"
    unfolding ulp_powr by (simp only: powr_numeral)
  also have "\<dots> = 2 powr (53 + real_of_int (binade x - 52))" by (simp only: powr_add)
  also have "\<dots> = 2 powr real_of_int (binade x + 1)" by (simp add: add.commute)
  finally show ?thesis .
qed

lemma double_lower:
  assumes "0 < x" "x < 2 ^ 1024" "- 1022 \<le> \<lfloor>log 2 x\<rfloor>"
  shows "2 powr real_of_int (binade x) \<le> roundToDouble x"
proof -
  have "roundTiesToEven (of_int (2 ^ 52)) \<le> roundTiesToEven (x / ulp x)"
    using scaled_above [OF assms] by (intro roundTiesToEven_mono) simp
  then have "2 ^ 52 \<le> roundTiesToEven (x / ulp x)" by (simp only: roundTiesToEven_of_int)
  then have "(2::real) ^ 52 \<le> real_of_int (roundTiesToEven (x / ulp x))"
    by (metis of_int_le_iff of_int_numeral of_int_power)
  then have "2 ^ 52 * ulp x \<le> roundToDouble x"
    unfolding double_pos [OF assms(1)] using ulp_pos by (simp add: mult_right_mono)
  moreover have "2 ^ 52 * ulp x = 2 powr 52 * 2 powr real_of_int (binade x - 52)"
    unfolding ulp_powr by (simp only: powr_numeral)
  moreover have "\<dots> = 2 powr (52 + real_of_int (binade x - 52))" by (simp only: powr_add)
  moreover have "\<dots> = 2 powr real_of_int (binade x)" by simp
  ultimately show ?thesis by simp
qed

lemma double_nonneg: "0 \<le> x \<Longrightarrow> 0 \<le> roundToDouble x"
proof (cases "x = 0")
  case True
  then show ?thesis by (simp add: roundToDouble_def)
next
  case False
  assume "0 \<le> x"
  with False have x: "0 < x" by simp
  have "0 \<le> x / ulp x" using x ulp_pos by (simp add: less_imp_le)
  then have "roundTiesToEven 0 \<le> roundTiesToEven (x / ulp x)" by (rule roundTiesToEven_mono)
  then have "0 \<le> roundTiesToEven (x / ulp x)" using roundTiesToEven_of_int [of 0] by simp
  then show ?thesis unfolding double_pos [OF x] using ulp_pos by (simp add: less_imp_le)
qed

lemma double_mono:
  assumes "0 \<le> x" "x \<le> y" "y < 2 ^ 1024"
  shows "roundToDouble x \<le> roundToDouble y"
proof (cases "x = 0")
  case True
  then show ?thesis using double_nonneg [of y] assms by (simp add: roundToDouble_def)
next
  case False
  with assms have x: "0 < x" and y: "0 < y" and fx: "x < 2 ^ 1024" by simp_all
  have le: "binade x \<le> binade y" using x assms(2,3) by (rule binade_mono)
  show ?thesis
  proof (cases "binade x = binade y")
    case True
    then have u: "ulp x = ulp y" by (simp add: ulp_def)
    have "x / ulp y \<le> y / ulp y"
      by (rule divide_right_mono [OF assms(2) less_imp_le [OF ulp_pos]])
    then have "roundTiesToEven (x / ulp y) \<le> roundTiesToEven (y / ulp y)"
      by (rule roundTiesToEven_mono)
    then show ?thesis
      unfolding double_pos [OF x] double_pos [OF y] u using ulp_pos [of y]
      by (simp add: mult_right_mono)
  next
    case False
    with le have lt: "binade x + 1 \<le> binade y" by simp
    have "- 1022 \<le> binade x" by (simp add: binade_log [OF x fx])
    with lt have "- 1022 < binade y" by simp
    then have ny: "- 1022 \<le> \<lfloor>log 2 y\<rfloor>"
      unfolding binade_log [OF y assms(3)] by (simp add: max_def split: if_splits)
    have "roundToDouble x \<le> 2 powr real_of_int (binade x + 1)" by (rule double_upper [OF x fx])
    also have "\<dots> \<le> 2 powr real_of_int (binade y)" using lt by simp
    also have "\<dots> \<le> roundToDouble y" by (rule double_lower [OF y assms(3) ny])
    finally show ?thesis .
  qed
qed

lemma binade_eq:
  assumes "0 < x" "2 powr real_of_int k \<le> x" "x < 2 powr real_of_int (k + 1)" "- 1022 \<le> k"
    and fin: "x < 2 ^ 1024"
  shows "binade x = k"
  using floor_log2_eq [OF assms(1-3)] assms(4) by (simp add: binade_log [OF assms(1) fin])

lemma double_error:
  assumes "0 < x"
  shows "\<bar>roundToDouble x - x\<bar> \<le> ulp x / 2"
proof -
  have "roundToDouble x - x = (real_of_int (roundTiesToEven (x / ulp x)) - x / ulp x) * ulp x"
    unfolding double_pos [OF assms] using ulp_pos [of x] by (simp add: field_simps)
  then have "\<bar>roundToDouble x - x\<bar> =
      \<bar>real_of_int (roundTiesToEven (x / ulp x)) - x / ulp x\<bar> * ulp x"
    using ulp_pos [of x] by (simp add: abs_mult)
  also have "\<dots> \<le> 1 / 2 * ulp x"
    using roundTiesToEven_error [of "x / ulp x"] ulp_pos [of x]
    by (intro mult_right_mono) simp_all
  finally show ?thesis by simp
qed

lemma double_scaled:
  assumes lo: "2 ^ 52 \<le> x * 2 ^ m" and hi: "x * 2 ^ m < 2 ^ 53" and m: "m \<le> 1074"
  shows "roundToDouble x = real_of_int (roundTiesToEven (x * 2 ^ m)) / 2 ^ m"
proof -
  have x: "0 < x"
  proof (rule ccontr)
    assume "\<not> 0 < x"
    then have "x * 2 ^ m \<le> 0" by (simp add: mult_le_0_iff)
    with lo show False by (smt (verit) zero_less_power)
  qed
  have "x * 1 \<le> x * 2 ^ m" using x by (intro mult_left_mono) simp_all
  with hi have "x < 2 ^ 53" by simp
  moreover have "(2::real) ^ 53 \<le> 2 ^ 1024" by (rule power_increasing) simp_all
  ultimately have fin: "x < 2 ^ 1024" by (rule less_le_trans)
  have p: "2 powr real_of_int (52 - int m) = 2 ^ 52 / 2 ^ m"
    by (simp add: powr_diff powr_realpow)
  have p1: "2 powr real_of_int (52 - int m + 1) = 2 ^ 53 / 2 ^ m"
    by (simp add: powr_diff powr_realpow powr_add)
  have "2 powr real_of_int (52 - int m) \<le> x" unfolding p using lo by (simp add: field_simps)
  moreover have "x < 2 powr real_of_int (52 - int m + 1)"
    unfolding p1 using hi by (simp add: field_simps)
  ultimately have b: "binade x = 52 - int m" using x m fin by (intro binade_eq) simp_all
  have u: "ulp x = 1 / 2 ^ m"
    unfolding ulp_powr b by (simp add: powr_minus powr_realpow field_simps)
  show ?thesis unfolding double_pos [OF x] u by simp
qed

lemma double_1: "roundToDouble 1 = 1"
  using double_scaled [of 1 52] by (simp add: roundTiesToEven_def)

lemma double_90: "roundToDouble 90 = 90"
  using double_scaled [of 90 46] by (simp add: roundTiesToEven_def)

lemma ulp_mono:
  assumes "0 < x" "x \<le> y" "y < 2 ^ 1024"
  shows "ulp x \<le> ulp y"
  unfolding ulp_powr using binade_mono [OF assms] by simp

lemma ulp_1: "ulp 1 = 1 / 2 ^ 52"
proof -
  have "binade 1 = 0" by (rule binade_eq) simp_all
  then show ?thesis by (simp add: ulp_def)
qed

lemma ulp_90: "ulp 90 = 1 / 2 ^ 46"
proof -
  have "binade 90 = 6" by (rule binade_eq) (simp_all add: powr_realpow)
  then show ?thesis by (simp add: ulp_def)
qed

lemma double_error_below:
  assumes "0 \<le> x" "x \<le> y" "y < 2 ^ 1024"
  shows "\<bar>roundToDouble x - x\<bar> \<le> ulp y / 2"
proof (cases "x = 0")
  case True
  then show ?thesis using ulp_pos [of y] by (simp add: roundToDouble_def)
next
  case False
  with assms have x: "0 < x" by simp
  have "\<bar>roundToDouble x - x\<bar> \<le> ulp x / 2" by (rule double_error [OF x])
  also have "\<dots> \<le> ulp y / 2" using ulp_mono [OF x assms(2,3)] by simp
  finally show ?thesis .
qed

subsection \<open>The progress percentage\<close>

lemma ratio_double_bounds:
  assumes "c \<le> numChunks" "0 < numChunks"
  shows "0 \<le> numberDivide (real c) (real numChunks)"
    and "numberDivide (real c) (real numChunks) \<le> 1"
proof -
  have q: "0 \<le> real c / real numChunks" "real c / real numChunks \<le> 1" "(1::real) < 2 ^ 1024"
    using assms by simp_all
  show "0 \<le> numberDivide (real c) (real numChunks)"
    unfolding numberDivide_def by (rule double_nonneg [OF q(1)])
  show "numberDivide (real c) (real numChunks) \<le> 1"
    unfolding numberDivide_def using double_mono [OF q] by (simp only: double_1)
qed

lemma percent_double_mono:
  assumes "c \<le> c'" "c' \<le> numChunks" "0 < numChunks"
  shows "numberTimes (numberDivide (real c) (real numChunks)) 90
       \<le> numberTimes (numberDivide (real c') (real numChunks)) 90"
proof -
  have q: "0 \<le> real c / real numChunks" by simp
  have q': "real c' / real numChunks < 2 ^ 1024"
  proof -
    have "real c' / real numChunks \<le> 1" using assms by simp
    also have "(1::real) < 2 ^ 1024" by simp
    finally show ?thesis .
  qed
  have "real c / real numChunks \<le> real c' / real numChunks"
    using assms by (simp add: divide_right_mono)
  then have a: "numberDivide (real c) (real numChunks) \<le> numberDivide (real c') (real numChunks)"
    unfolding numberDivide_def using q' by (rule double_mono [OF q])
  have "0 \<le> numberDivide (real c) (real numChunks)"
    unfolding numberDivide_def by (rule double_nonneg [OF q])
  then have z: "0 \<le> numberDivide (real c) (real numChunks) * 90" by simp
  have le: "numberDivide (real c) (real numChunks) * 90
      \<le> numberDivide (real c') (real numChunks) * 90"
    using a by simp
  have "numberDivide (real c') (real numChunks) * 90 \<le> 1 * 90"
    using ratio_double_bounds(2) [OF assms(2,3)] by (intro mult_right_mono) simp_all
  also have "(1::real) * 90 < 2 ^ 1024" by simp
  finally have fin: "numberDivide (real c') (real numChunks) * 90 < 2 ^ 1024" .
  show ?thesis unfolding numberTimes_def by (rule double_mono [OF z le fin])
qed

lemma percent_double_bounds:
  assumes "c \<le> numChunks" "0 < numChunks"
  shows "0 \<le> numberTimes (numberDivide (real c) (real numChunks)) 90"
    and "numberTimes (numberDivide (real c) (real numChunks)) 90 \<le> 90"
proof -
  note a = ratio_double_bounds [OF assms]
  have z: "0 \<le> numberDivide (real c) (real numChunks) * 90"
    "numberDivide (real c) (real numChunks) * 90 \<le> 90" "(90::real) < 2 ^ 1024"
    using a by simp_all
  show "0 \<le> numberTimes (numberDivide (real c) (real numChunks)) 90"
    unfolding numberTimes_def by (rule double_nonneg [OF z(1)])
  show "numberTimes (numberDivide (real c) (real numChunks)) 90 \<le> 90"
    unfolding numberTimes_def using double_mono [OF z] by (simp only: double_90)
qed

lemma percent_double_error:
  assumes "c \<le> numChunks" "0 < numChunks"
  shows "\<bar>numberTimes (numberDivide (real c) (real numChunks)) 90
          - 90 * real c / real numChunks\<bar> \<le> 1 / 2 ^ 45"
proof -
  let ?q = "real c / real numChunks"
  let ?a = "numberDivide (real c) (real numChunks)"
  have q: "0 \<le> ?q" "?q \<le> 1" "(1::real) < 2 ^ 1024" using assms by simp_all
  have ea: "\<bar>?a - ?q\<bar> \<le> 1 / 2 ^ 53"
    unfolding numberDivide_def using double_error_below [OF q] by (simp add: ulp_1)
  note a = ratio_double_bounds [OF assms]
  have z: "0 \<le> ?a * 90" "?a * 90 \<le> 90" "(90::real) < 2 ^ 1024" using a by simp_all
  have eb: "\<bar>numberTimes ?a 90 - ?a * 90\<bar> \<le> 1 / 2 ^ 47"
    unfolding numberTimes_def using double_error_below [OF z] by (simp add: ulp_90)
  have tri: "\<bar>t - 90 * q\<bar> \<le> \<bar>t - a * 90\<bar> + 90 * \<bar>a - q\<bar>" for t a q :: real
  proof -
    have "t - 90 * q = (t - a * 90) + 90 * (a - q)" by (simp add: algebra_simps)
    then have "\<bar>t - 90 * q\<bar> \<le> \<bar>t - a * 90\<bar> + \<bar>90 * (a - q)\<bar>"
      by (simp only: abs_triangle_ineq)
    moreover have "\<bar>90 * (a - q)\<bar> = 90 * \<bar>a - q\<bar>" by (subst abs_mult) simp
    ultimately show ?thesis by (simp only:)
  qed
  have "90 * real c / real numChunks = 90 * ?q" by simp
  then have "\<bar>numberTimes ?a 90 - 90 * real c / real numChunks\<bar>
      \<le> \<bar>numberTimes ?a 90 - ?a * 90\<bar> + 90 * \<bar>?a - ?q\<bar>"
    using tri [of "numberTimes ?a 90" ?q ?a] by (simp only:)
  also have "\<dots> \<le> 1 / 2 ^ 47 + 90 * (1 / 2 ^ 53)"
    by (intro add_mono mult_left_mono eb ea) simp
  also have "\<dots> \<le> 1 / 2 ^ 45" by simp
  finally show ?thesis .
qed

lemma round_near:
  fixes x y :: real
  assumes "\<bar>x - y\<bar> \<le> 1"
  shows "\<bar>round x - round y\<bar> \<le> 1"
proof -
  have shift: "\<lfloor>(z + 1 / 2) + 1\<rfloor> = \<lfloor>z + 1 / 2\<rfloor> + 1" for z :: real
    using floor_add_int [of "z + 1 / 2" 1] by simp
  have "x + 1 / 2 \<le> (y + 1 / 2) + 1" using assms by linarith
  then have "\<lfloor>x + 1 / 2\<rfloor> \<le> \<lfloor>(y + 1 / 2) + 1\<rfloor>" by (rule floor_mono)
  then have a: "\<lfloor>x + 1 / 2\<rfloor> \<le> \<lfloor>y + 1 / 2\<rfloor> + 1" by (simp only: shift)
  have "y + 1 / 2 \<le> (x + 1 / 2) + 1" using assms by linarith
  then have "\<lfloor>y + 1 / 2\<rfloor> \<le> \<lfloor>(x + 1 / 2) + 1\<rfloor>" by (rule floor_mono)
  then have b: "\<lfloor>y + 1 / 2\<rfloor> \<le> \<lfloor>x + 1 / 2\<rfloor> + 1" by (simp only: shift)
  from a b show ?thesis unfolding round_def by (simp only: abs_le_iff) simp
qed

lemma progress_mono:
  assumes "c \<le> c'" "c' \<le> numChunks" "0 < numChunks"
  shows "5 + round (numberTimes (numberDivide (real c) (real numChunks)) 90)
       \<le> 5 + round (numberTimes (numberDivide (real c') (real numChunks)) 90)"
  using round_mono [OF percent_double_mono [OF assms]] by simp

lemma progress_upper:
  assumes "c \<le> numChunks" "0 < numChunks"
  shows "5 + round (numberTimes (numberDivide (real c) (real numChunks)) 90) \<le> 95"
  using round_mono [OF percent_double_bounds(2) [OF assms]] by simp

lemma progress_lower:
  assumes "c \<le> numChunks" "0 < numChunks"
  shows "5 \<le> 5 + round (numberTimes (numberDivide (real c) (real numChunks)) 90)"
  using round_mono [OF percent_double_bounds(1) [OF assms]] by simp

lemma progress_near_exact:
  assumes "c \<le> numChunks" "0 < numChunks"
  shows "\<bar>(5 + round (numberTimes (numberDivide (real c) (real numChunks)) 90))
          - (5 + round (90 * real c / real numChunks))\<bar> \<le> 1"
proof -
  have "(1::real) / 2 ^ 45 \<le> 1" by simp
  with percent_double_error [OF assms]
  have "\<bar>numberTimes (numberDivide (real c) (real numChunks)) 90
          - 90 * real c / real numChunks\<bar> \<le> 1"
    by linarith
  from round_near [OF this] show ?thesis by simp
qed

section \<open>Helper lemmas: the client\<close>

lemma transcribeAudio_cases:
  "transcribeAudio (Responds (Some t)) = Inr t"
  "transcribeAudio (Responds None) = Inr ''''"
  "transcribeAudio (Throws (ErrorInstance m)) = Inr (''Error: API call failed - '' @ m)"
  "transcribeAudio (Throws NonError) =
     Inr ''Error: An unknown error occurred during transcription.''"
  by (simp_all add: transcribeAudio_def tryBody_def)

lemma transcribeAudio_returns: "\<exists>s. transcribeAudio outcome = Inr s"
proof (cases outcome)
  case (Responds t)
  then show ?thesis by (cases t) (simp_all add: transcribeAudio_cases)
next
  case (Throws e)
  then show ?thesis by (cases e) (simp_all add: transcribeAudio_cases)
qed

lemma transcribeAudio_thrown_marker:
  "\<exists>s. transcribeAudio (Throws e) = Inr s \<and> startsWith s ''Error:''"
  by (cases e) (simp_all add: transcribeAudio_cases startsWith_def)

lemma chunkTask_rejects_iff:
  "(\<exists>e. chunkTask audioBuffer api i = Inl e) \<longleftrightarrow>
   (\<exists>s. transcribeAudio (api i) = Inr s \<and> startsWith s ''Error:'')"
proof -
  obtain s where s: "transcribeAudio (api i) = Inr s"
    using transcribeAudio_returns by blast
  then show ?thesis by (simp add: chunkTask_def)
qed

section \<open>Helper lemmas: chunk planning\<close>

lemma chunkTotalSamples_pos:
  "0 < sampleRate ab \<Longrightarrow> 0 < chunkTotalSamples ab"
  by (simp add: chunkTotalSamples_def CHUNK_SIZE_SECONDS_def)

lemma duration_over_chunk:
  "0 < sampleRate ab \<Longrightarrow> real (length' ab) / chunkTotalSamples ab = duration ab / 20"
  by (simp add: chunkTotalSamples_def CHUNK_SIZE_SECONDS_def duration_def)

lemma duration_nonneg: "0 < sampleRate ab \<Longrightarrow> 0 \<le> duration ab"
  by (simp add: duration_def)

lemma numChunksOf_ceiling:
  "0 < sampleRate ab \<Longrightarrow> real (numChunksOf ab) = of_int \<lceil>duration ab / 20\<rceil>"
proof -
  assume sr: "0 < sampleRate ab"
  have "0 \<le> duration ab / 20" using duration_nonneg [OF sr] by simp
  then have "0 \<le> \<lceil>duration ab / 20\<rceil>" by linarith
  then show ?thesis
    by (simp add: numChunksOf_def duration_over_chunk [OF sr])
qed

lemma below_numChunks_iff:
  assumes sr: "0 < sampleRate ab"
  shows "i < numChunksOf ab \<longleftrightarrow> real i * 20 < duration ab"
proof -
  have "i < numChunksOf ab \<longleftrightarrow> real i < real (numChunksOf ab)" by simp
  also have "\<dots> \<longleftrightarrow> of_int (int i) < (of_int \<lceil>duration ab / 20\<rceil> :: real)"
    by (simp add: numChunksOf_ceiling [OF sr])
  also have "\<dots> \<longleftrightarrow> int i < \<lceil>duration ab / 20\<rceil>" by (simp only: of_int_less_iff)
  also have "\<dots> \<longleftrightarrow> of_int (int i) < duration ab / 20" by (simp only: less_ceiling_iff)
  also have "\<dots> \<longleftrightarrow> real i * 20 < duration ab" by (simp add: field_simps)
  finally show ?thesis .
qed

lemma chunk_times:
  "chunkStartTime i = real i * 20"
  "chunkEndTime ab i = min (real (i + 1) * 20) (duration ab)"
  by (simp_all add: chunkStartTime_def chunkEndTime_def CHUNK_SIZE_SECONDS_def)

lemma chunk_contiguous:
  assumes sr: "0 < sampleRate ab" and i: "Suc i < numChunksOf ab"
  shows "chunkEndTime ab i = chunkStartTime (Suc i)"
proof -
  have "real (Suc i) * 20 < duration ab" using below_numChunks_iff [OF sr] i by blast
  then show ?thesis by (simp add: chunk_times)
qed

lemma chunk_nonempty:
  assumes sr: "0 < sampleRate ab" and i: "i < numChunksOf ab"
  shows "chunkStartTime i < chunkEndTime ab i"
proof -
  have "real i * 20 < duration ab" using below_numChunks_iff [OF sr] i by blast
  then show ?thesis by (simp add: chunk_times)
qed

lemma last_chunk_end:
  assumes sr: "0 < sampleRate ab" and n: "0 < numChunksOf ab"
  shows "chunkEndTime ab (numChunksOf ab - 1) = duration ab"
proof -
  have "\<not> real (numChunksOf ab) * 20 < duration ab"
    using below_numChunks_iff [OF sr, of "numChunksOf ab"] by simp
  moreover have "real (numChunksOf ab - 1 + 1) = real (numChunksOf ab)" using n by simp
  ultimately show ?thesis by (simp add: chunk_times)
qed

lemma chunk_of_instant:
  assumes sr: "0 < sampleRate ab" and t: "0 \<le> t" "t < duration ab"
  shows "\<exists>!i. i < numChunksOf ab \<and> chunkStartTime i \<le> t \<and> t < chunkEndTime ab i"
proof
  let ?i = "nat \<lfloor>t / 20\<rfloor>"
  have fl: "0 \<le> \<lfloor>t / 20\<rfloor>" using t by simp
  have lo: "real ?i * 20 \<le> t"
  proof -
    have "of_int \<lfloor>t / 20\<rfloor> \<le> t / 20" by (rule of_int_floor_le)
    then show ?thesis using fl by (simp add: field_simps)
  qed
  have hi: "t < real (?i + 1) * 20"
  proof -
    have "t / 20 < of_int \<lfloor>t / 20\<rfloor> + 1" by linarith
    then show ?thesis using fl by (simp add: field_simps)
  qed
  have "real ?i * 20 < duration ab" using lo t by linarith
  then have "?i < numChunksOf ab" using below_numChunks_iff [OF sr] by blast
  then show "?i < numChunksOf ab \<and> chunkStartTime ?i \<le> t \<and> t < chunkEndTime ab ?i"
    using lo hi t by (simp add: chunk_times)
next
  fix i
  assume "i < numChunksOf ab \<and> chunkStartTime i \<le> t \<and> t < chunkEndTime ab i"
  then have lo: "real i * 20 \<le> t" and hi: "t < real (i + 1) * 20"
    by (simp_all add: chunk_times)
  have "real i \<le> t / 20" using lo by (simp add: field_simps)
  moreover have "t / 20 < real i + 1" using hi by (simp add: field_simps)
  ultimately have "\<lfloor>t / 20\<rfloor> = int i" by (intro floor_unique) simp_all
  then show "i = nat \<lfloor>t / 20\<rfloor>" by simp
qed

section \<open>Helper lemmas: the wave loop\<close>

declare transcribeLoop.simps [simp del]

lemma settle_None:
  "settleUntilReject task cs = (settled, None) \<Longrightarrow>
     settled = cs \<and> (\<forall>c \<in> set cs. \<exists>r. task c = Inr r)"
  by (induction cs arbitrary: settled) (auto split: sum.splits prod.splits)

lemma settle_Some:
  "settleUntilReject task cs = (settled, Some e) \<Longrightarrow>
     \<exists>pre k post. cs = pre @ k # post \<and> settled = pre @ [k] \<and> task k = Inl e \<and>
        (\<forall>c \<in> set pre. \<exists>r. task c = Inr r)"
proof (induction cs arbitrary: settled)
  case Nil
  then show ?case by simp
next
  case (Cons c cs)
  show ?case
  proof (cases "task c")
    case (Inl e')
    with Cons.prems have "settled = [c]" "e' = e" by simp_all
    with Inl have "c # cs = [] @ c # cs \<and> settled = [] @ [c] \<and> task c = Inl e \<and>
        (\<forall>c \<in> set []. \<exists>r. task c = Inr r)" by simp
    then show ?thesis by blast
  next
    case (Inr r)
    with Cons.prems obtain settled' where s': "settleUntilReject task cs = (settled', Some e)"
      and st: "settled = c # settled'"
      by (auto split: prod.splits)
    from Cons.IH [OF s'] obtain pre k post where
      "cs = pre @ k # post" "settled' = pre @ [k]" "task k = Inl e"
      "\<forall>c \<in> set pre. \<exists>r. task c = Inr r" by blast
    with Inr st have "c # cs = (c # pre) @ k # post \<and> settled = (c # pre) @ [k] \<and>
       task k = Inl e \<and> (\<forall>c' \<in> set (c # pre). \<exists>r. task c' = Inr r)" by simp
    then show ?thesis by blast
  qed
qed

lemma settle_all_ok:
  "(\<forall>c \<in> set cs. \<exists>r. task c = Inr r) \<Longrightarrow> settleUntilReject task cs = (cs, None)"
  by (induction cs) auto

lemma settle_first_reject:
  "(\<forall>c \<in> set pre. \<exists>r. task c = Inr r) \<Longrightarrow> task k = Inl e \<Longrightarrow>
     settleUntilReject task (pre @ k # post) = (pre @ [k], Some e)"
  by (induction pre) auto

lemma chunkBatchIndices_upt:
  "chunkBatchIndices i numChunks = [i ..< i + min CONCURRENCY_LIMIT (numChunks - i)]"
proof -
  have "map (\<lambda>k. i + k) [0 ..< m] = [i ..< i + m]" for m
    by (induction m) simp_all
  then show ?thesis by (simp add: chunkBatchIndices_def)
qed

lemma chunkBatchIndices_range:
  "i < numChunks \<Longrightarrow> chunkBatchIndices i numChunks = [i ..< min (i + CONCURRENCY_LIMIT) numChunks]"
proof -
  assume "i < numChunks"
  then have "i + min CONCURRENCY_LIMIT (numChunks - i) = min (i + CONCURRENCY_LIMIT) numChunks"
    by arith
  then show ?thesis by (simp add: chunkBatchIndices_upt)
qed

lemma chunkTask_ok:
  "chunkTask ab api k = Inr r \<Longrightarrow> r = \<lparr>turn = chunkTurn ab api k, index = k\<rparr>"
  by (auto simp: chunkTask_def chunkTurn_def split: sum.splits if_splits)

lemma chunkTask_rejection_is_marker:
  "chunkTask ab api k = Inl e \<Longrightarrow>
     \<exists>s. transcribeAudio (api k) = Inr s \<and> startsWith s ''Error:'' \<and> e = ErrorInstance s"
proof -
  assume a: "chunkTask ab api k = Inl e"
  obtain s where s: "transcribeAudio (api k) = Inr s" using transcribeAudio_returns by blast
  with a show ?thesis by (auto simp: chunkTask_def split: if_splits)
qed

lemma fulfilled_all_ok:
  "(\<forall>c \<in> set batch. \<exists>r. chunkTask ab api c = Inr r) \<Longrightarrow>
     fulfilled (chunkTask ab api) batch = map (\<lambda>k. \<lparr>turn = chunkTurn ab api k, index = k\<rparr>) batch"
proof (induction batch)
  case Nil
  then show ?case by (simp add: fulfilled_def)
next
  case (Cons c batch)
  then obtain r where r: "chunkTask ab api c = Inr r" by auto
  then have "r = \<lparr>turn = chunkTurn ab api c, index = c\<rparr>" by (rule chunkTask_ok)
  with r Cons show ?case by (simp add: fulfilled_def)
qed

lemma place_slotsUpTo:
  assumes "c < numChunks"
  shows "place (slotsUpTo ab api numChunks c) \<lparr>turn = chunkTurn ab api c, index = c\<rparr> =
         slotsUpTo ab api numChunks (Suc c)"
proof -
  have "(slotsUpTo ab api numChunks c)[c := Some (chunkTurn ab api c)] =
        slotsUpTo ab api numChunks (Suc c)"
    using assms by (intro nth_equalityI) (auto simp: slotsUpTo_def nth_list_update)
  then show ?thesis using assms by (simp add: place_def slotsUpTo_def)
qed

lemma foldl_place_slotsUpTo:
  "a \<le> b \<Longrightarrow> b \<le> numChunks \<Longrightarrow>
     foldl place (slotsUpTo ab api numChunks a)
       (map (\<lambda>k. \<lparr>turn = chunkTurn ab api k, index = k\<rparr>) [a ..< b]) =
     slotsUpTo ab api numChunks b"
proof (induction b)
  case 0
  then show ?case by simp
next
  case (Suc b)
  show ?case
  proof (cases "a = Suc b")
    case True
    then show ?thesis by simp
  next
    case False
    with Suc.prems have ab: "a \<le> b" and bn: "b \<le> numChunks" and b: "b < numChunks" by simp_all
    have "[a ..< Suc b] = [a ..< b] @ [b]" using ab by simp
    then show ?thesis using Suc.IH [OF ab bn] place_slotsUpTo [OF b] by simp
  qed
qed

lemma filterBoolean_slotsUpTo:
  "c \<le> numChunks \<Longrightarrow>
     filterBoolean (slotsUpTo ab api numChunks c) = map (chunkTurn ab api) [0 ..< c]"
proof -
  assume c: "c \<le> numChunks"
  have split: "[0 ..< numChunks] = [0 ..< c] @ [c ..< numChunks]"
    using c by (metis le0 upt_add_eq_append le_add_diff_inverse)
  have below: "\<forall>k \<in> set ks. k < c \<Longrightarrow>
      concat (map (\<lambda>k. case (if k < c then Some (chunkTurn ab api k) else None) of
               Some t \<Rightarrow> [t] | None \<Rightarrow> []) ks) = map (chunkTurn ab api) ks" for ks
    by (induction ks) simp_all
  have a: "concat (map (\<lambda>k. case (if k < c then Some (chunkTurn ab api k) else None) of
               Some t \<Rightarrow> [t] | None \<Rightarrow> []) [0 ..< c]) = map (chunkTurn ab api) [0 ..< c]"
    by (rule below) simp
  have b: "concat (map (\<lambda>k. case (if k < c then Some (chunkTurn ab api k) else None) of
               Some t \<Rightarrow> [t] | None \<Rightarrow> []) [c ..< numChunks]) = []"
    by simp
  show ?thesis
    unfolding filterBoolean_def slotsUpTo_def map_map comp_def
    by (subst split) (simp only: map_append concat_append a b append_Nil2)
qed

lemma startTime_chunkTurn: "startTime (chunkTurn ab api k) = real k * 20"
  by (simp add: chunkTurn_def chunk_times)

lemma sorted_startTimes_upt: "sorted (map (\<lambda>k. real k * 20) [a ..< b])"
  by (induction b) (auto simp: sorted_append)

lemma sortedTurns_slotsUpTo:
  "c \<le> numChunks \<Longrightarrow>
     sortedTurns (slotsUpTo ab api numChunks c) = map (chunkTurn ab api) [0 ..< c]"
proof -
  assume c: "c \<le> numChunks"
  have "sorted (map startTime (map (chunkTurn ab api) [0 ..< c]))"
    using sorted_startTimes_upt [of 0 c] by (simp add: comp_def startTime_chunkTurn)
  then show ?thesis
    by (simp add: sortedTurns_def filterBoolean_slotsUpTo [OF c] sort_key_id_if_sorted)
qed


lemma loop_exit:
  "\<not> i < numChunks \<Longrightarrow>
     transcribeLoop ab api lat numChunks i slots cp job = ([], job, Inr slots)"
  by (simp add: transcribeLoop.simps)

lemma promiseAll_ok:
  assumes "\<forall>c \<in> set batch. \<exists>r. chunkTask ab api c = Inr r"
  shows "promiseAll (chunkTask ab api) lat batch =
     (map Issued batch @ map Settled (sort_key lat batch),
      Inr (map (\<lambda>k. \<lparr>turn = chunkTurn ab api k, index = k\<rparr>) batch))"
proof -
  have "\<forall>c \<in> set (sort_key lat batch). \<exists>r. chunkTask ab api c = Inr r"
    using assms by simp
  then have "settleUntilReject (chunkTask ab api) (sort_key lat batch) = (sort_key lat batch, None)"
    by (rule settle_all_ok)
  then show ?thesis by (simp add: promiseAll_def fulfilled_all_ok [OF assms])
qed

lemma promiseAll_reject:
  assumes "sort_key lat batch = pre @ k # post"
    and "\<forall>c \<in> set pre. \<exists>r. task c = Inr r" and "task k = Inl e"
  shows "promiseAll task lat batch = (map Issued batch @ map Settled (pre @ [k]), Inl e)"
  using settle_first_reject [OF assms(2,3), of post] assms(1)
  by (simp add: promiseAll_def)

lemma wave_cases:
  fixes task :: "nat \<Rightarrow> JsThrown + 'r"
  shows "(\<forall>c \<in> set batch. \<exists>r. task c = Inr r) \<or>
   (\<exists>pre k post e. sort_key lat batch = pre @ k # post \<and>
        (\<forall>c \<in> set pre. \<exists>r. task c = Inr r) \<and> task k = Inl e)"
proof -
  obtain settled rejection where
    s: "settleUntilReject task (sort_key lat batch) = (settled, rejection)"
    by (cases "settleUntilReject task (sort_key lat batch)")
  show ?thesis
  proof (cases rejection)
    case None
    with s settle_None [of task "sort_key lat batch" settled] show ?thesis by simp
  next
    case (Some e)
    with s settle_Some [of task "sort_key lat batch" settled e] show ?thesis by blast
  qed
qed

lemma loop_wave_ok:
  assumes i: "i < numChunks"
    and ok: "\<forall>c \<in> set [i ..< min (i + CONCURRENCY_LIMIT) numChunks]. \<exists>r. chunkTask ab api c = Inr r"
  shows "transcribeLoop ab api lat numChunks i (slotsUpTo ab api numChunks i) i job =
     (case transcribeLoop ab api lat numChunks (i + CONCURRENCY_LIMIT)
             (slotsUpTo ab api numChunks (min (i + CONCURRENCY_LIMIT) numChunks))
             (min (i + CONCURRENCY_LIMIT) numChunks)
             (waveJob ab api numChunks (min (i + CONCURRENCY_LIMIT) numChunks) job) of
        (evs', rest) \<Rightarrow>
          (map Issued [i ..< min (i + CONCURRENCY_LIMIT) numChunks] @
           map Settled (sort_key lat [i ..< min (i + CONCURRENCY_LIMIT) numChunks]) @
           Published (waveJob ab api numChunks (min (i + CONCURRENCY_LIMIT) numChunks) job) # evs',
           rest))"
proof -
  let ?c = "min (i + CONCURRENCY_LIMIT) numChunks"
  have ic: "i \<le> ?c" and cn: "?c \<le> numChunks" using i by simp_all
  have len: "i + length [i ..< ?c] = ?c" using ic by simp
  have slots: "foldl place (slotsUpTo ab api numChunks i)
       (map (\<lambda>k. \<lparr>turn = chunkTurn ab api k, index = k\<rparr>) [i ..< ?c]) =
     slotsUpTo ab api numChunks ?c"
    by (rule foldl_place_slotsUpTo [OF ic cn])
  show ?thesis
    apply (subst transcribeLoop.simps)
    apply (simp only: i if_True chunkBatchIndices_range [OF i] promiseAll_ok [OF ok]
        prod.case sum.case Let_def slots length_map len sortedTurns_slotsUpTo [OF cn])
    apply (simp add: waveJob_def split: prod.splits)
    done
qed

lemma loop_wave_reject:
  assumes i: "i < numChunks"
    and order: "sort_key lat [i ..< min (i + CONCURRENCY_LIMIT) numChunks] = pre @ k # post"
    and pre: "\<forall>c \<in> set pre. \<exists>r. chunkTask ab api c = Inr r"
    and k: "chunkTask ab api k = Inl e"
  shows "transcribeLoop ab api lat numChunks i slots cp job =
     (map Issued [i ..< min (i + CONCURRENCY_LIMIT) numChunks] @ map Settled (pre @ [k]),
      job, Inl e)"
  apply (subst transcribeLoop.simps)
  apply (simp only: i if_True chunkBatchIndices_range [OF i]
      promiseAll_reject [OF order pre k] prod.case sum.case)
  done

lemma transcribeLoop_induct [case_names exit reject ok]:
  fixes P :: "nat \<Rightarrow> TranscribedFile \<Rightarrow> Event list \<times> TranscribedFile \<times> (JsThrown + Slots) \<Rightarrow> bool"
  assumes exit: "\<And>i job. numChunks \<le> i \<Longrightarrow>
            P i job ([], job, Inr (slotsUpTo ab api numChunks numChunks))"
    and reject: "\<And>i job pre k post e. i < numChunks \<Longrightarrow>
            sort_key lat [i ..< min (i + CONCURRENCY_LIMIT) numChunks] = pre @ k # post \<Longrightarrow>
            \<forall>c \<in> set pre. \<exists>r. chunkTask ab api c = Inr r \<Longrightarrow>
            chunkTask ab api k = Inl e \<Longrightarrow>
            P i job (map Issued [i ..< min (i + CONCURRENCY_LIMIT) numChunks] @
                     map Settled (pre @ [k]), job, Inl e)"
    and ok: "\<And>i job evs' rest. i < numChunks \<Longrightarrow>
            \<forall>c \<in> set [i ..< min (i + CONCURRENCY_LIMIT) numChunks].
               \<exists>r. chunkTask ab api c = Inr r \<Longrightarrow>
            transcribeLoop ab api lat numChunks (i + CONCURRENCY_LIMIT)
               (slotsUpTo ab api numChunks (min (i + CONCURRENCY_LIMIT) numChunks))
               (min (i + CONCURRENCY_LIMIT) numChunks)
               (waveJob ab api numChunks (min (i + CONCURRENCY_LIMIT) numChunks) job) =
              (evs', rest) \<Longrightarrow>
            P (i + CONCURRENCY_LIMIT)
              (waveJob ab api numChunks (min (i + CONCURRENCY_LIMIT) numChunks) job)
              (evs', rest) \<Longrightarrow>
            P i job
              (map Issued [i ..< min (i + CONCURRENCY_LIMIT) numChunks] @
               map Settled (sort_key lat [i ..< min (i + CONCURRENCY_LIMIT) numChunks]) @
               Published (waveJob ab api numChunks (min (i + CONCURRENCY_LIMIT) numChunks) job)
                 # evs', rest)"
  shows "P i job (transcribeLoop ab api lat numChunks i
                    (slotsUpTo ab api numChunks (min i numChunks)) (min i numChunks) job)"
proof (induction "numChunks - i" arbitrary: i job rule: less_induct)
  case less
  show ?case
  proof (cases "i < numChunks")
    case False
    then have "min i numChunks = numChunks" by simp
    with False exit [of i job] show ?thesis by (simp add: loop_exit)
  next
    case True
    then have mi: "min i numChunks = i" by simp
    let ?c = "min (i + CONCURRENCY_LIMIT) numChunks"
    let ?i' = "i + CONCURRENCY_LIMIT"
    consider (allok) "\<forall>c \<in> set [i ..< ?c]. \<exists>r. chunkTask ab api c = Inr r"
      | (rej) pre k post e where "sort_key lat [i ..< ?c] = pre @ k # post"
          "\<forall>c \<in> set pre. \<exists>r. chunkTask ab api c = Inr r" "chunkTask ab api k = Inl e"
      using wave_cases [of "[i ..< ?c]" "chunkTask ab api" lat] by blast
    then show ?thesis
    proof cases
      case allok
      have dec: "numChunks - ?i' < numChunks - i"
        using True by (simp add: CONCURRENCY_LIMIT_def)
      obtain evs' rest where r: "transcribeLoop ab api lat numChunks ?i'
               (slotsUpTo ab api numChunks ?c) ?c (waveJob ab api numChunks ?c job) = (evs', rest)"
        by (cases "transcribeLoop ab api lat numChunks ?i'
               (slotsUpTo ab api numChunks ?c) ?c (waveJob ab api numChunks ?c job)")
      have "P ?i' (waveJob ab api numChunks ?c job) (evs', rest)"
        using less [OF dec, of "waveJob ab api numChunks ?c job"] by (simp only: r)
      from ok [OF True allok r this] show ?thesis
        by (simp only: mi loop_wave_ok [OF True allok] r prod.case)
    next
      case rej
      from reject [OF True rej, of job] show ?thesis
        by (simp only: mi loop_wave_reject [OF True rej])
    qed
  qed
qed


subsection \<open>Traces\<close>

lemma issuedOf_simps:
  "issuedOf [] = []"
  "issuedOf (Issued j # evs) = j # issuedOf evs"
  "issuedOf (Settled j # evs) = issuedOf evs"
  "issuedOf (Published job # evs) = issuedOf evs"
  "issuedOf (xs @ ys) = issuedOf xs @ issuedOf ys"
  by (simp_all add: issuedOf_def)

lemma settledOf_simps:
  "settledOf [] = []"
  "settledOf (Issued j # evs) = settledOf evs"
  "settledOf (Settled j # evs) = j # settledOf evs"
  "settledOf (Published job # evs) = settledOf evs"
  "settledOf (xs @ ys) = settledOf xs @ settledOf ys"
  by (simp_all add: settledOf_def)

lemma publishedOf_simps:
  "publishedOf [] = []"
  "publishedOf (Issued j # evs) = publishedOf evs"
  "publishedOf (Settled j # evs) = publishedOf evs"
  "publishedOf (Published job # evs) = job # publishedOf evs"
  "publishedOf (xs @ ys) = publishedOf xs @ publishedOf ys"
  by (simp_all add: publishedOf_def)

lemma observe_map_Issued:
  "issuedOf (map Issued xs) = xs" "settledOf (map Issued xs) = []"
  "publishedOf (map Issued xs) = []"
  by (induction xs) (simp_all add: issuedOf_simps settledOf_simps publishedOf_simps)

lemma observe_map_Settled:
  "issuedOf (map Settled xs) = []" "settledOf (map Settled xs) = xs"
  "publishedOf (map Settled xs) = []"
  by (induction xs) (simp_all add: issuedOf_simps settledOf_simps publishedOf_simps)

lemma set_issuedOf: "j \<in> set (issuedOf evs) \<longleftrightarrow> Issued j \<in> set evs"
proof (induction evs)
  case Nil
  then show ?case by (simp add: issuedOf_simps)
next
  case (Cons ev evs)
  then show ?case by (cases ev) (auto simp: issuedOf_simps)
qed

lemma set_settledOf: "j \<in> set (settledOf evs) \<longleftrightarrow> Settled j \<in> set evs"
proof (induction evs)
  case Nil
  then show ?case by (simp add: settledOf_simps)
next
  case (Cons ev evs)
  then show ?case by (cases ev) (auto simp: settledOf_simps)
qed

lemma set_publishedOf: "job \<in> set (publishedOf evs) \<longleftrightarrow> Published job \<in> set evs"
proof (induction evs)
  case Nil
  then show ?case by (simp add: publishedOf_simps)
next
  case (Cons ev evs)
  then show ?case by (cases ev) (auto simp: publishedOf_simps)
qed

lemma outstandingAfter_append:
  "outstandingAfter pending (xs @ ys) = outstandingAfter (outstandingAfter pending xs) ys"
proof (induction xs arbitrary: pending)
  case Nil
  then show ?case by simp
next
  case (Cons ev xs)
  then show ?case by (cases ev) simp_all
qed

lemma outstandingAfter_Issued: "outstandingAfter pending (map Issued xs) = pending \<union> set xs"
  by (induction xs arbitrary: pending) auto

lemma outstandingAfter_Settled: "outstandingAfter pending (map Settled xs) = pending - set xs"
  by (induction xs arbitrary: pending) auto

lemma outstandingAfter_subset:
  "outstandingAfter pending p \<subseteq> pending \<union> set (issuedOf p)"
proof (induction p arbitrary: pending)
  case Nil
  then show ?case by simp
next
  case (Cons ev p)
  show ?case
  proof (cases ev)
    case (Issued j)
    then show ?thesis using Cons [of "insert j pending"] by (auto simp: issuedOf_simps)
  next
    case (Settled j)
    then show ?thesis using Cons [of "pending - {j}"] by (auto simp: issuedOf_simps)
  next
    case (Published job)
    then show ?thesis using Cons [of pending] by (auto simp: issuedOf_simps)
  qed
qed

lemma prefix_issuedOf: "prefix p q \<Longrightarrow> set (issuedOf p) \<subseteq> set (issuedOf q)"
  by (auto simp: prefix_def issuedOf_simps)

lemma batch_length: "length [i ..< min (i + CONCURRENCY_LIMIT) numChunks] \<le> CONCURRENCY_LIMIT"
  by simp

lemma wave_prefix_outstanding:
  assumes "prefix p (map Issued [i ..< min (i + CONCURRENCY_LIMIT) numChunks] @ map Settled cs)"
  shows "card (outstandingAfter {} p) \<le> CONCURRENCY_LIMIT"
proof -
  let ?b = "[i ..< min (i + CONCURRENCY_LIMIT) numChunks]"
  have "set (issuedOf p) \<subseteq> set ?b"
    using prefix_issuedOf [OF assms] by (simp add: issuedOf_simps observe_map_Issued observe_map_Settled)
  then have "outstandingAfter {} p \<subseteq> set ?b"
    using outstandingAfter_subset [of "{}" p] by blast
  then have "card (outstandingAfter {} p) \<le> card (set ?b)"
    by (intro card_mono) simp_all
  also have "\<dots> \<le> length ?b" by (rule card_length)
  also have "\<dots> \<le> CONCURRENCY_LIMIT" by (rule batch_length)
  finally show ?thesis .
qed

lemma prefix_snoc_append:
  assumes "prefix (p @ [x]) (B @ y # E)"
  shows "prefix (p @ [x]) B \<or> (p = B \<and> x = y) \<or> (\<exists>q. p = B @ y # q \<and> prefix (q @ [x]) E)"
proof -
  from assms consider "prefix (p @ [x]) B"
    | us where "p @ [x] = B @ us" "prefix us (y # E)"
    by (auto simp: prefix_append)
  then show ?thesis
  proof cases
    case 1
    then show ?thesis by simp
  next
    case 2
    show ?thesis
    proof (cases us)
      case Nil
      with 2 show ?thesis by simp
    next
      case (Cons u us')
      with 2 have u: "u = y" and us': "prefix us' E" by simp_all
      show ?thesis
      proof (cases us' rule: rev_cases)
        case Nil
        with 2 Cons u show ?thesis by simp
      next
        case (snoc q x')
        with 2 Cons u have "p = B @ y # q" "x = x'" by simp_all
        with us' snoc show ?thesis by simp
      qed
    qed
  qed
qed

lemma loop_events_range:
  assumes run: "loopFrom ab api lat numChunks i job = (evs, jobF, res)"
    and ev: "Issued j \<in> set evs \<or> Settled j \<in> set evs"
  shows "i \<le> j \<and> j < numChunks"
proof -
  define P :: "nat \<Rightarrow> TranscribedFile \<Rightarrow> Event list \<times> TranscribedFile \<times> (JsThrown + Slots) \<Rightarrow> bool"
    where "P = (\<lambda>i job (evs, jobF, res).
       \<forall>j. Issued j \<in> set evs \<or> Settled j \<in> set evs \<longrightarrow> i \<le> j \<and> j < numChunks)"
  have "P i job (loopFrom ab api lat numChunks i job)"
  proof (rule transcribeLoop_induct)
    fix i job
    show "P i job ([], job, Inr (slotsUpTo ab api numChunks numChunks))"
      by (simp add: P_def)
  next
    fix i job pre k post e
    let ?b = "[i ..< min (i + CONCURRENCY_LIMIT) numChunks]"
    assume "sort_key lat ?b = pre @ k # post"
    then have "set ?b = set (pre @ k # post)" by (metis set_sort)
    then have "set (pre @ [k]) \<subseteq> set ?b" by auto
    then show "P i job (map Issued ?b @ map Settled (pre @ [k]), job, Inl e)"
      unfolding P_def by auto
  next
    fix i job evs' rest
    let ?c = "min (i + CONCURRENCY_LIMIT) numChunks"
    assume "P (i + CONCURRENCY_LIMIT) (waveJob ab api numChunks ?c job) (evs', rest)"
    then show "P i job (map Issued [i ..< ?c] @ map Settled (sort_key lat [i ..< ?c]) @
          Published (waveJob ab api numChunks ?c job) # evs', rest)"
      unfolding P_def by (cases rest) auto
  qed
  then show ?thesis using ev unfolding P_def run prod.case by blast
qed

lemma loop_outstanding:
  assumes run: "loopFrom ab api lat numChunks i job = (evs, jobF, res)"
  shows "prefix p evs \<Longrightarrow> card (outstandingAfter {} p) \<le> CONCURRENCY_LIMIT"
    and "res = Inr slots \<Longrightarrow> outstandingAfter {} evs = {}"
proof -
  define P :: "nat \<Rightarrow> TranscribedFile \<Rightarrow> Event list \<times> TranscribedFile \<times> (JsThrown + Slots) \<Rightarrow> bool"
    where "P = (\<lambda>i job (evs, jobF, res).
       (\<forall>p. prefix p evs \<longrightarrow> card (outstandingAfter {} p) \<le> CONCURRENCY_LIMIT) \<and>
       (\<forall>slots. res = Inr slots \<longrightarrow> outstandingAfter {} evs = {}))"
  have "P i job (loopFrom ab api lat numChunks i job)"
  proof (rule transcribeLoop_induct)
    fix i job
    show "P i job ([], job, Inr (slotsUpTo ab api numChunks numChunks))"
      by (simp add: P_def)
  next
    fix i job pre k post e
    have "card (outstandingAfter {} p) \<le> CONCURRENCY_LIMIT"
      if "prefix p (map Issued [i ..< min (i + CONCURRENCY_LIMIT) numChunks] @
                     map Settled (pre @ [k]))" for p
      using that by (rule wave_prefix_outstanding)
    then show "P i job (map Issued [i ..< min (i + CONCURRENCY_LIMIT) numChunks] @
                     map Settled (pre @ [k]), job, Inl e)"
      unfolding P_def prod.case by blast
  next
    fix i job evs' rest
    let ?b = "[i ..< min (i + CONCURRENCY_LIMIT) numChunks]"
    let ?B = "map Issued ?b @ map Settled (sort_key lat ?b)"
    let ?job' = "waveJob ab api numChunks (min (i + CONCURRENCY_LIMIT) numChunks) job"
    assume IH: "P (i + CONCURRENCY_LIMIT) ?job' (evs', rest)"
    obtain jobF res where rest: "rest = (jobF, res)" by (cases rest)
    have clear: "outstandingAfter {} ?B = {}"
      by (simp add: outstandingAfter_append outstandingAfter_Issued outstandingAfter_Settled)
    have "card (outstandingAfter {} p) \<le> CONCURRENCY_LIMIT"
      if p: "prefix p (?B @ Published ?job' # evs')" for p
    proof -
      from p consider "prefix p ?B" | q where "p = ?B @ q" "prefix q (Published ?job' # evs')"
        by (auto simp: prefix_append)
      then show ?thesis
      proof cases
        case 1
        then show ?thesis by (rule wave_prefix_outstanding)
      next
        case 2
        show ?thesis
        proof (cases q)
          case Nil
          with 2 clear show ?thesis by simp
        next
          case (Cons x q')
          with 2 have x: "x = Published ?job'" and q': "prefix q' evs'" by simp_all
          have "outstandingAfter {} p = outstandingAfter {} q'"
            using 2(1) Cons x clear by (simp only: outstandingAfter_append outstandingAfter.simps)
          then show ?thesis using IH q' by (simp add: P_def rest)
        qed
      qed
    qed
    moreover have "outstandingAfter {} (?B @ Published ?job' # evs') = {}"
      if "res = Inr slots" for slots
    proof -
      have "outstandingAfter {} (?B @ Published ?job' # evs') = outstandingAfter {} evs'"
        by (simp only: outstandingAfter_append [of _ ?B] clear outstandingAfter.simps)
      then show ?thesis using IH that by (simp add: P_def rest)
    qed
    ultimately have "P i job (?B @ Published ?job' # evs', rest)"
      unfolding P_def rest prod.case by blast
    then show "P i job (map Issued ?b @ map Settled (sort_key lat ?b) @
                 Published ?job' # evs', rest)"
      by (simp only: append_assoc)
  qed
  then have all: "(\<forall>p. prefix p evs \<longrightarrow> card (outstandingAfter {} p) \<le> CONCURRENCY_LIMIT) \<and>
       (\<forall>slots. res = Inr slots \<longrightarrow> outstandingAfter {} evs = {})"
    by (simp add: P_def run)
  show "prefix p evs \<Longrightarrow> card (outstandingAfter {} p) \<le> CONCURRENCY_LIMIT"
    using all by blast
  show "res = Inr slots \<Longrightarrow> outstandingAfter {} evs = {}"
    using all by blast
qed

lemma wave_div:
  assumes "CONCURRENCY_LIMIT dvd i" "i \<le> j" "j < i + CONCURRENCY_LIMIT"
  shows "j div CONCURRENCY_LIMIT = i div CONCURRENCY_LIMIT"
proof -
  obtain w where w: "i = CONCURRENCY_LIMIT * w" using assms(1) by (auto simp: dvd_def)
  have "j div 10 = w" using assms(2,3) w by (simp add: CONCURRENCY_LIMIT_def)
  then show ?thesis using w by (simp add: CONCURRENCY_LIMIT_def)
qed

lemma wave_div_mono: "i \<le> j \<Longrightarrow> i div CONCURRENCY_LIMIT \<le> j div CONCURRENCY_LIMIT"
  by (rule div_le_mono)

lemma loop_barrier:
  assumes run: "loopFrom ab api lat numChunks i job = (evs, jobF, res)"
    and "CONCURRENCY_LIMIT dvd i" "prefix (p @ [Issued j]) evs" "i \<le> j'"
      "j' div CONCURRENCY_LIMIT < j div CONCURRENCY_LIMIT"
  shows "Settled j' \<in> set p"
proof -
  define P :: "nat \<Rightarrow> TranscribedFile \<Rightarrow> Event list \<times> TranscribedFile \<times> (JsThrown + Slots) \<Rightarrow> bool"
    where "P = (\<lambda>i job (evs, jobF, res). CONCURRENCY_LIMIT dvd i \<longrightarrow>
       (\<forall>p j j'. prefix (p @ [Issued j]) evs \<and> i \<le> j' \<and>
                 j' div CONCURRENCY_LIMIT < j div CONCURRENCY_LIMIT \<longrightarrow> Settled j' \<in> set p))"
  have in_wave: False
    if "CONCURRENCY_LIMIT dvd i" "prefix (p @ [Issued j]) (map Issued [i ..< c] @ map Settled cs)"
       "c \<le> i + CONCURRENCY_LIMIT" "i \<le> j'" "j' div CONCURRENCY_LIMIT < j div CONCURRENCY_LIMIT"
    for i j j' p c cs
  proof -
    have "Issued j \<in> set (p @ [Issued j])" by simp
    then have "Issued j \<in> set (map Issued [i ..< c] @ map Settled cs)"
      using that(2) set_mono_prefix by blast
    then have "i \<le> j" "j < i + CONCURRENCY_LIMIT" using that(3) by auto
    then have "j div CONCURRENCY_LIMIT = i div CONCURRENCY_LIMIT"
      using wave_div that(1) by blast
    then show False using wave_div_mono [OF that(4)] that(5) by simp
  qed
  have "P i job (loopFrom ab api lat numChunks i job)"
  proof (rule transcribeLoop_induct)
    fix i job
    show "P i job ([], job, Inr (slotsUpTo ab api numChunks numChunks))"
      by (simp add: P_def)
  next
    fix i job pre k post e
    show "P i job (map Issued [i ..< min (i + CONCURRENCY_LIMIT) numChunks] @
                     map Settled (pre @ [k]), job, Inl e)"
      unfolding P_def prod.case
      using in_wave [of i _ _ "min (i + CONCURRENCY_LIMIT) numChunks" "pre @ [k]"]
      by (meson min.cobounded1)
  next
    fix i job evs' rest
    let ?c = "min (i + CONCURRENCY_LIMIT) numChunks"
    let ?b = "[i ..< ?c]"
    let ?B = "map Issued ?b @ map Settled (sort_key lat ?b)"
    let ?job' = "waveJob ab api numChunks ?c job"
    assume run': "loopFrom ab api lat numChunks (i + CONCURRENCY_LIMIT) ?job' = (evs', rest)"
    assume IH: "P (i + CONCURRENCY_LIMIT) ?job' (evs', rest)"
    obtain jobF res where rest: "rest = (jobF, res)" by (cases rest)
    have range: "Issued j \<in> set evs' \<Longrightarrow> i + CONCURRENCY_LIMIT \<le> j \<and> j < numChunks" for j
      using loop_events_range [OF run' [unfolded rest]] by blast
    have "Settled j' \<in> set p"
      if dvd: "CONCURRENCY_LIMIT dvd i"
        and p: "prefix (p @ [Issued j]) (?B @ Published ?job' # evs')"
        and j': "i \<le> j'" "j' div CONCURRENCY_LIMIT < j div CONCURRENCY_LIMIT"
      for p j j'
    proof -
      from prefix_snoc_append [OF p]
      consider "prefix (p @ [Issued j]) ?B"
        | q where "p = ?B @ Published ?job' # q" "prefix (q @ [Issued j]) evs'"
        by auto
      then show ?thesis
      proof cases
        case 1
        then show ?thesis
          using in_wave [OF dvd _ _ j', of p ?c "sort_key lat ?b"] by simp
      next
        case 2
        have "Issued j \<in> set evs'" using 2(2) set_mono_prefix by fastforce
        then have j: "i + CONCURRENCY_LIMIT \<le> j" "j < numChunks" using range by blast+
        show ?thesis
        proof (cases "j' < i + CONCURRENCY_LIMIT")
          case True
          have "j' < j" using j'(2) by (meson div_le_mono leI not_le)
          then have "j' \<in> set ?b" using j' True j by simp
          then show ?thesis using 2(1) by simp
        next
          case False
          then have "i + CONCURRENCY_LIMIT \<le> j'" by simp
          moreover have "CONCURRENCY_LIMIT dvd i + CONCURRENCY_LIMIT" using dvd by simp
          ultimately have "Settled j' \<in> set q"
            using IH 2(2) j'(2) unfolding P_def rest prod.case by blast
          then show ?thesis using 2(1) by simp
        qed
      qed
    qed
    then have "P i job (?B @ Published ?job' # evs', rest)"
      unfolding P_def rest prod.case by blast
    then show "P i job (map Issued ?b @ map Settled (sort_key lat ?b) @
                 Published ?job' # evs', rest)"
      by (simp only: append_assoc)
  qed
  then show ?thesis using assms(2-) unfolding P_def run prod.case by blast
qed


lemma waveJob_waveJob:
  "waveJob ab api numChunks c' (waveJob ab api numChunks c job) = waveJob ab api numChunks c' job"
  by (simp add: waveJob_def)

lemma waveJob_fields:
  "progress (waveJob ab api numChunks c job) =
     5 + round (numberTimes (numberDivide (real c) (real numChunks)) 90)"
  "transcription (waveJob ab api numChunks c job) = map (chunkTurn ab api) [0 ..< c]"
  "status (waveJob ab api numChunks c job) = status job"
  "error (waveJob ab api numChunks c job) = error job"
  "id' (waveJob ab api numChunks c job) = id' job"
  by (simp_all add: waveJob_def)

lemma wave_block_no_published:
  "\<not> prefix (p @ [Published job']) (map Issued b @ map Settled cs)"
proof
  assume "prefix (p @ [Published job']) (map Issued b @ map Settled cs)"
  then have "set (p @ [Published job']) \<subseteq> set (map Issued b @ map Settled cs)"
    by (rule set_mono_prefix)
  then show False by auto
qed

lemma loop_published:
  assumes run: "loopFrom ab api lat numChunks i job = (evs, jobF, res)"
    and pre: "prefix (p @ [Published job']) evs"
  shows "job' = waveJob ab api numChunks (min i numChunks + length (settledOf p)) job
     \<and> mset (settledOf p) = mset [min i numChunks ..< min i numChunks + length (settledOf p)]
     \<and> min i numChunks + length (settledOf p) =
         min numChunks (i + CONCURRENCY_LIMIT * Suc (length (publishedOf p)))"
proof -
  define Q :: "nat \<Rightarrow> TranscribedFile \<Rightarrow> Event list \<Rightarrow> TranscribedFile \<Rightarrow> bool"
    where "Q = (\<lambda>i job p job'.
       job' = waveJob ab api numChunks (min i numChunks + length (settledOf p)) job
     \<and> mset (settledOf p) = mset [min i numChunks ..< min i numChunks + length (settledOf p)]
     \<and> min i numChunks + length (settledOf p) =
         min numChunks (i + CONCURRENCY_LIMIT * Suc (length (publishedOf p))))"
  define P :: "nat \<Rightarrow> TranscribedFile \<Rightarrow> Event list \<times> TranscribedFile \<times> (JsThrown + Slots) \<Rightarrow> bool"
    where "P = (\<lambda>i job (evs, jobF, res).
       \<forall>p job'. prefix (p @ [Published job']) evs \<longrightarrow> Q i job p job')"
  have "P i job (loopFrom ab api lat numChunks i job)"
  proof (rule transcribeLoop_induct)
    fix i job
    show "P i job ([], job, Inr (slotsUpTo ab api numChunks numChunks))"
      by (simp add: P_def)
  next
    fix i job pre k post e
    show "P i job (map Issued [i ..< min (i + CONCURRENCY_LIMIT) numChunks] @
                     map Settled (pre @ [k]), job, Inl e)"
      unfolding P_def prod.case using wave_block_no_published by blast
  next
    fix i job evs' rest
    let ?c = "min (i + CONCURRENCY_LIMIT) numChunks"
    let ?b = "[i ..< ?c]"
    let ?B = "map Issued ?b @ map Settled (sort_key lat ?b)"
    let ?job' = "waveJob ab api numChunks ?c job"
    assume i: "i < numChunks"
    assume IH: "P (i + CONCURRENCY_LIMIT) ?job' (evs', rest)"
    obtain jobF res where rest: "rest = (jobF, res)" by (cases rest)
    have ic: "i \<le> ?c" and mi: "min i numChunks = i" using i by simp_all
    have lenB: "length (settledOf ?B) = ?c - i"
      by (simp add: settledOf_simps observe_map_Issued observe_map_Settled)
    have "Q i job p job'" if p: "prefix (p @ [Published job']) (?B @ Published ?job' # evs')"
      for p job'
    proof -
      from prefix_snoc_append [OF p] wave_block_no_published
      consider "p = ?B" "job' = ?job'"
        | q where "p = ?B @ Published ?job' # q" "prefix (q @ [Published job']) evs'"
        by blast
      then show ?thesis
      proof cases
        case 1
        have "settledOf p = sort_key lat ?b"
          using 1 by (simp add: settledOf_simps observe_map_Issued observe_map_Settled)
        moreover have "publishedOf p = []"
          using 1 by (simp add: publishedOf_simps observe_map_Issued observe_map_Settled)
        moreover have "i + (?c - i) = ?c" using ic by simp
        moreover have "?c = min numChunks (i + CONCURRENCY_LIMIT * Suc 0)" by simp
        ultimately show ?thesis using 1(2) unfolding Q_def mi by simp
      next
        case 2
        from IH 2(2) have q: "Q (i + CONCURRENCY_LIMIT) ?job' q job'"
          unfolding P_def rest prod.case by blast
        let ?l = "length (settledOf q)"
        have sp: "settledOf p = sort_key lat ?b @ settledOf q"
          using 2(1) by (simp add: settledOf_simps observe_map_Issued observe_map_Settled)
        have pp: "publishedOf p = ?job' # publishedOf q"
          using 2(1) by (simp add: publishedOf_simps observe_map_Issued observe_map_Settled)
        have len: "i + length (settledOf p) = ?c + ?l" using sp ic by simp
        have split: "[i ..< ?c + ?l] = [i ..< ?c] @ [?c ..< ?c + ?l]"
          using ic by (metis le_add_diff_inverse upt_add_eq_append)
        have qm: "mset (settledOf q) = mset [?c ..< ?c + ?l]"
          using q unfolding Q_def by blast
        have "mset (settledOf p) = mset (sort_key lat ?b) + mset (settledOf q)"
          by (simp only: sp mset_append)
        also have "\<dots> = mset [i ..< ?c] + mset [?c ..< ?c + ?l]"
          by (simp only: mset_sort qm)
        also have "\<dots> = mset [i ..< ?c + ?l]"
          by (simp only: split mset_append)
        finally have ms: "mset (settledOf p) = mset [i ..< i + length (settledOf p)]"
          by (simp only: len)
        have "?c + ?l = min numChunks (i + CONCURRENCY_LIMIT * Suc (length (publishedOf p)))"
          using q unfolding Q_def pp by (simp add: add.assoc)
        moreover have "job' = waveJob ab api numChunks (?c + ?l) job"
          using q unfolding Q_def by (simp add: waveJob_waveJob)
        ultimately show ?thesis using ms unfolding Q_def mi len by simp
      qed
    qed
    then have "P i job (?B @ Published ?job' # evs', rest)"
      unfolding P_def rest prod.case by blast
    then show "P i job (map Issued ?b @ map Settled (sort_key lat ?b) @
                 Published ?job' # evs', rest)"
      by (simp only: append_assoc)
  qed
  then show ?thesis using pre unfolding P_def Q_def run prod.case by blast
qed

lemma loop_final_job:
  assumes run: "loopFrom ab api lat numChunks i job = (evs, jobF, res)"
  shows "jobF = last (job # publishedOf evs)"
proof -
  define P :: "nat \<Rightarrow> TranscribedFile \<Rightarrow> Event list \<times> TranscribedFile \<times> (JsThrown + Slots) \<Rightarrow> bool"
    where "P = (\<lambda>i job (evs, jobF, res). jobF = last (job # publishedOf evs))"
  have "P i job (loopFrom ab api lat numChunks i job)"
  proof (rule transcribeLoop_induct)
    fix i job
    show "P i job ([], job, Inr (slotsUpTo ab api numChunks numChunks))"
      by (simp add: P_def publishedOf_simps)
  next
    fix i job pre k post e
    show "P i job (map Issued [i ..< min (i + CONCURRENCY_LIMIT) numChunks] @
                     map Settled (pre @ [k]), job, Inl e)"
      by (simp add: P_def publishedOf_simps observe_map_Issued observe_map_Settled
          del: map_append)
  next
    fix i job evs' rest
    let ?c = "min (i + CONCURRENCY_LIMIT) numChunks"
    let ?job' = "waveJob ab api numChunks ?c job"
    assume "P (i + CONCURRENCY_LIMIT) ?job' (evs', rest)"
    then show "P i job (map Issued [i ..< ?c] @ map Settled (sort_key lat [i ..< ?c]) @
                 Published ?job' # evs', rest)"
      by (cases rest)
         (simp add: P_def publishedOf_simps observe_map_Issued observe_map_Settled)
  qed
  then show ?thesis by (simp add: P_def run)
qed

lemma prefix_chunkTurns:
  "c \<le> c' \<Longrightarrow> prefix (map (chunkTurn ab api) [0 ..< c]) (map (chunkTurn ab api) [0 ..< c'])"
proof -
  assume "c \<le> c'"
  then have "[0 ..< c'] = [0 ..< c] @ [c ..< c']"
    by (metis le0 le_add_diff_inverse upt_add_eq_append)
  then show ?thesis by simp
qed

lemma loop_published_chain:
  assumes run: "loopFrom ab api lat numChunks i job = (evs, jobF, res)"
  shows "sorted (map progress (publishedOf evs))
     \<and> sorted_wrt prefix (map transcription (publishedOf evs))
     \<and> (\<forall>j \<in> set (publishedOf evs). \<exists>c. min i numChunks \<le> c \<and> c \<le> numChunks \<and>
            0 < numChunks \<and> j = waveJob ab api numChunks c job)"
proof -
  define P :: "nat \<Rightarrow> TranscribedFile \<Rightarrow> Event list \<times> TranscribedFile \<times> (JsThrown + Slots) \<Rightarrow> bool"
    where "P = (\<lambda>i job (evs, jobF, res).
       sorted (map progress (publishedOf evs))
     \<and> sorted_wrt prefix (map transcription (publishedOf evs))
     \<and> (\<forall>j \<in> set (publishedOf evs). \<exists>c. min i numChunks \<le> c \<and> c \<le> numChunks \<and>
            0 < numChunks \<and> j = waveJob ab api numChunks c job))"
  have "P i job (loopFrom ab api lat numChunks i job)"
  proof (rule transcribeLoop_induct)
    fix i job
    show "P i job ([], job, Inr (slotsUpTo ab api numChunks numChunks))"
      by (simp add: P_def publishedOf_simps)
  next
    fix i job pre k post e
    show "P i job (map Issued [i ..< min (i + CONCURRENCY_LIMIT) numChunks] @
                     map Settled (pre @ [k]), job, Inl e)"
      by (simp add: P_def publishedOf_simps observe_map_Issued observe_map_Settled
          del: map_append)
  next
    fix i job evs' rest
    let ?c = "min (i + CONCURRENCY_LIMIT) numChunks"
    let ?job' = "waveJob ab api numChunks ?c job"
    assume i: "i < numChunks"
    assume IH: "P (i + CONCURRENCY_LIMIT) ?job' (evs', rest)"
    obtain jobF res where rest: "rest = (jobF, res)" by (cases rest)
    have n: "0 < numChunks" using i by simp
    have later: "\<exists>c. ?c \<le> c \<and> c \<le> numChunks \<and> j = waveJob ab api numChunks c job"
      if "j \<in> set (publishedOf evs')" for j
      using IH that unfolding P_def rest prod.case by (auto simp: waveJob_waveJob)
    have pub: "publishedOf (map Issued [i ..< ?c] @ map Settled (sort_key lat [i ..< ?c]) @
                 Published ?job' # evs') = ?job' # publishedOf evs'"
      by (simp add: publishedOf_simps observe_map_Issued observe_map_Settled)
    have "progress ?job' \<le> progress j" if "j \<in> set (publishedOf evs')" for j
      using later [OF that] progress_mono [OF _ _ n] by (auto simp: waveJob_fields)
    moreover have "prefix (transcription ?job') (transcription j)"
      if "j \<in> set (publishedOf evs')" for j
      using later [OF that] prefix_chunkTurns by (auto simp: waveJob_fields)
    moreover have "\<exists>c. min i numChunks \<le> c \<and> c \<le> numChunks \<and> 0 < numChunks \<and>
        j = waveJob ab api numChunks c job" if "j \<in> set (publishedOf evs')" for j
    proof -
      from later [OF that] obtain c where "?c \<le> c" "c \<le> numChunks"
        "j = waveJob ab api numChunks c job" by blast
      moreover from this have "min i numChunks \<le> c" by simp
      ultimately show ?thesis using n by blast
    qed
    moreover have "\<exists>c. min i numChunks \<le> c \<and> c \<le> numChunks \<and> 0 < numChunks \<and>
        ?job' = waveJob ab api numChunks c job"
      using n by (intro exI [of _ ?c]) simp
    ultimately show "P i job (map Issued [i ..< ?c] @ map Settled (sort_key lat [i ..< ?c]) @
                 Published ?job' # evs', rest)"
      using IH unfolding P_def rest prod.case pub by auto
  qed
  then show ?thesis by (simp add: P_def run)
qed


lemma upt_join: "a \<le> b \<Longrightarrow> b \<le> c \<Longrightarrow> [a ..< b] @ [b ..< c] = [a ..< (c::nat)]"
  by (metis le_add_diff_inverse upt_add_eq_append)

lemma loop_issued:
  assumes run: "loopFrom ab api lat numChunks i job = (evs, jobF, res)"
  shows "(\<exists>m. issuedOf evs = [min i numChunks ..< min (i + CONCURRENCY_LIMIT * m) numChunks])
     \<and> (\<forall>slots. res = Inr slots \<longrightarrow>
          issuedOf evs = [min i numChunks ..< numChunks] \<and>
          mset (settledOf evs) = mset [min i numChunks ..< numChunks] \<and>
          slots = slotsUpTo ab api numChunks numChunks)"
proof -
  define P :: "nat \<Rightarrow> TranscribedFile \<Rightarrow> Event list \<times> TranscribedFile \<times> (JsThrown + Slots) \<Rightarrow> bool"
    where "P = (\<lambda>i job (evs, jobF, res).
       (\<exists>m. issuedOf evs = [min i numChunks ..< min (i + CONCURRENCY_LIMIT * m) numChunks])
     \<and> (\<forall>slots. res = Inr slots \<longrightarrow>
          issuedOf evs = [min i numChunks ..< numChunks] \<and>
          mset (settledOf evs) = mset [min i numChunks ..< numChunks] \<and>
          slots = slotsUpTo ab api numChunks numChunks))"
  have "P i job (loopFrom ab api lat numChunks i job)"
  proof (rule transcribeLoop_induct)
    fix i job
    assume "numChunks \<le> i"
    then have "min i numChunks = numChunks" by simp
    then show "P i job ([], job, Inr (slotsUpTo ab api numChunks numChunks))"
      by (simp add: P_def issuedOf_simps settledOf_simps)
  next
    fix i job pre k post e
    assume i: "i < numChunks"
    let ?b = "[i ..< min (i + CONCURRENCY_LIMIT) numChunks]"
    have "issuedOf (map Issued ?b @ map Settled (pre @ [k])) =
           [min i numChunks ..< min (i + CONCURRENCY_LIMIT * 1) numChunks]"
      using i by (simp add: issuedOf_simps observe_map_Issued observe_map_Settled del: map_append)
    then show "P i job (map Issued ?b @ map Settled (pre @ [k]), job, Inl e)"
      unfolding P_def prod.case by blast
  next
    fix i job evs' rest
    let ?c = "min (i + CONCURRENCY_LIMIT) numChunks"
    let ?b = "[i ..< ?c]"
    let ?job' = "waveJob ab api numChunks ?c job"
    let ?E = "map Issued ?b @ map Settled (sort_key lat ?b) @ Published ?job' # evs'"
    assume i: "i < numChunks"
    assume IH: "P (i + CONCURRENCY_LIMIT) ?job' (evs', rest)"
    obtain jobF res where rest: "rest = (jobF, res)" by (cases rest)
    have ic: "i \<le> ?c" and cn: "?c \<le> numChunks" and mi: "min i numChunks = i"
      using i by simp_all
    have iss: "issuedOf ?E = ?b @ issuedOf evs'"
      by (simp add: issuedOf_simps observe_map_Issued observe_map_Settled)
    have set: "settledOf ?E = sort_key lat ?b @ settledOf evs'"
      by (simp add: settledOf_simps observe_map_Issued observe_map_Settled)
    from IH obtain m where m: "issuedOf evs' = [?c ..< min (i + CONCURRENCY_LIMIT + CONCURRENCY_LIMIT * m) numChunks]"
      unfolding P_def rest prod.case by blast
    have le: "?c \<le> min (i + CONCURRENCY_LIMIT + CONCURRENCY_LIMIT * m) numChunks" by simp
    have "issuedOf ?E = [i ..< min (i + CONCURRENCY_LIMIT + CONCURRENCY_LIMIT * m) numChunks]"
      unfolding iss m by (rule upt_join [OF ic le])
    moreover have "i + CONCURRENCY_LIMIT + CONCURRENCY_LIMIT * m = i + CONCURRENCY_LIMIT * Suc m"
      by simp
    ultimately have "issuedOf ?E = [min i numChunks ..< min (i + CONCURRENCY_LIMIT * Suc m) numChunks]"
      unfolding mi by (simp only:)
    then have first: "\<exists>m. issuedOf ?E = [min i numChunks ..< min (i + CONCURRENCY_LIMIT * m) numChunks]"
      by (rule exI)
    have second: "issuedOf ?E = [min i numChunks ..< numChunks] \<and>
          mset (settledOf ?E) = mset [min i numChunks ..< numChunks] \<and>
          slots = slotsUpTo ab api numChunks numChunks" if "res = Inr slots" for slots
    proof -
      from IH that have a: "issuedOf evs' = [?c ..< numChunks]"
        and b: "mset (settledOf evs') = mset [?c ..< numChunks]"
        and c: "slots = slotsUpTo ab api numChunks numChunks"
        unfolding P_def rest prod.case by blast+
      have "issuedOf ?E = [i ..< numChunks]" unfolding iss a by (rule upt_join [OF ic cn])
      moreover have "mset (settledOf ?E) = mset ([i ..< ?c] @ [?c ..< numChunks])"
        unfolding set by (simp only: mset_append mset_sort b)
      then have "mset (settledOf ?E) = mset [i ..< numChunks]"
        by (simp only: upt_join [OF ic cn])
      ultimately show ?thesis using c unfolding mi by blast
    qed
    show "P i job (?E, rest)"
      unfolding P_def rest prod.case using first second by blast
  qed
  then show ?thesis by (simp add: P_def run)
qed

lemma wave_start:
  assumes "CONCURRENCY_LIMIT dvd i" "i \<le> j" "j < i + CONCURRENCY_LIMIT"
  shows "CONCURRENCY_LIMIT * (j div CONCURRENCY_LIMIT) = i"
  using wave_div [OF assms] assms(1) by simp

lemma wave_start_later:
  assumes "CONCURRENCY_LIMIT dvd i" "i + CONCURRENCY_LIMIT \<le> j"
  shows "i + CONCURRENCY_LIMIT \<le> CONCURRENCY_LIMIT * (j div CONCURRENCY_LIMIT)"
proof -
  have d: "CONCURRENCY_LIMIT dvd i + CONCURRENCY_LIMIT" using assms(1) by simp
  have "(i + CONCURRENCY_LIMIT) div CONCURRENCY_LIMIT \<le> j div CONCURRENCY_LIMIT"
    using assms(2) by (rule div_le_mono)
  then have "CONCURRENCY_LIMIT * ((i + CONCURRENCY_LIMIT) div CONCURRENCY_LIMIT)
       \<le> CONCURRENCY_LIMIT * (j div CONCURRENCY_LIMIT)" by (rule mult_le_mono2)
  then show ?thesis using d by (simp only: dvd_mult_div_cancel)
qed

lemma loop_failure:
  assumes run: "loopFrom ab api lat numChunks i job = (evs, jobF, res)"
    and dvd: "CONCURRENCY_LIMIT dvd i"
    and issued: "Issued j \<in> set evs"
    and fail: "chunkTask ab api j = Inl e"
  shows "(\<exists>pre k post e'.
            sort_key lat [CONCURRENCY_LIMIT * (j div CONCURRENCY_LIMIT) ..<
               min (CONCURRENCY_LIMIT * (j div CONCURRENCY_LIMIT) + CONCURRENCY_LIMIT) numChunks]
              = pre @ k # post \<and>
            (\<forall>c \<in> set pre. \<exists>r. chunkTask ab api c = Inr r) \<and>
            chunkTask ab api k = Inl e' \<and> res = Inl e')
     \<and> (\<forall>j'. Issued j' \<in> set evs \<longrightarrow>
            j' < CONCURRENCY_LIMIT * (j div CONCURRENCY_LIMIT) + CONCURRENCY_LIMIT)
     \<and> jobF = (if CONCURRENCY_LIMIT * (j div CONCURRENCY_LIMIT) = i then job
               else waveJob ab api numChunks (CONCURRENCY_LIMIT * (j div CONCURRENCY_LIMIT)) job)
     \<and> (\<forall>k. i \<le> k \<and> k < CONCURRENCY_LIMIT * (j div CONCURRENCY_LIMIT) \<longrightarrow>
            (\<exists>r. chunkTask ab api k = Inr r))"
proof -
  define R :: "nat \<Rightarrow> TranscribedFile \<Rightarrow> Event list \<Rightarrow> TranscribedFile \<Rightarrow> JsThrown + Slots \<Rightarrow> nat \<Rightarrow> bool"
    where "R = (\<lambda>i job evs jobF res w.
       (\<exists>pre k post e'.
            sort_key lat [w ..< min (w + CONCURRENCY_LIMIT) numChunks] = pre @ k # post \<and>
            (\<forall>c \<in> set pre. \<exists>r. chunkTask ab api c = Inr r) \<and>
            chunkTask ab api k = Inl e' \<and> res = Inl e')
     \<and> (\<forall>j'. Issued j' \<in> set evs \<longrightarrow> j' < w + CONCURRENCY_LIMIT)
     \<and> jobF = (if w = i then job else waveJob ab api numChunks w job)
     \<and> (\<forall>k. i \<le> k \<and> k < w \<longrightarrow> (\<exists>r. chunkTask ab api k = Inr r)))"
  define P :: "nat \<Rightarrow> TranscribedFile \<Rightarrow> Event list \<times> TranscribedFile \<times> (JsThrown + Slots) \<Rightarrow> bool"
    where "P = (\<lambda>i job (evs, jobF, res). CONCURRENCY_LIMIT dvd i \<longrightarrow>
       (\<forall>j e. Issued j \<in> set evs \<and> chunkTask ab api j = Inl e \<longrightarrow>
          R i job evs jobF res (CONCURRENCY_LIMIT * (j div CONCURRENCY_LIMIT))))"
  have "P i job (loopFrom ab api lat numChunks i job)"
  proof (rule transcribeLoop_induct)
    fix i job
    show "P i job ([], job, Inr (slotsUpTo ab api numChunks numChunks))"
      by (simp add: P_def)
  next
    fix i job pre k post e
    let ?c = "min (i + CONCURRENCY_LIMIT) numChunks"
    let ?evs = "map Issued [i ..< ?c] @ map Settled (pre @ [k])"
    assume order: "sort_key lat [i ..< ?c] = pre @ k # post"
      and pre: "\<forall>c \<in> set pre. \<exists>r. chunkTask ab api c = Inr r"
      and k: "chunkTask ab api k = Inl e"
    have "R i job ?evs job (Inl e) (CONCURRENCY_LIMIT * (j div CONCURRENCY_LIMIT))"
      if dvd: "CONCURRENCY_LIMIT dvd i" and j: "Issued j \<in> set ?evs" for j
    proof -
      from j have "i \<le> j" "j < i + CONCURRENCY_LIMIT" by auto
      then have w: "CONCURRENCY_LIMIT * (j div CONCURRENCY_LIMIT) = i"
        using wave_start [OF dvd] by blast
      have r2: "\<forall>j'. Issued j' \<in> set ?evs \<longrightarrow> j' < i + CONCURRENCY_LIMIT" by auto
      have r1: "\<exists>pre k post e'.
            sort_key lat [i ..< min (i + CONCURRENCY_LIMIT) numChunks] = pre @ k # post \<and>
            (\<forall>c \<in> set pre. \<exists>r. chunkTask ab api c = Inr r) \<and>
            chunkTask ab api k = Inl e' \<and> (Inl e :: JsThrown + Slots) = Inl e'"
        using order pre k by blast
      have r3: "job = (if i = i then job else waveJob ab api numChunks i job)" by simp
      have r4: "\<forall>k. i \<le> k \<and> k < i \<longrightarrow> (\<exists>r. chunkTask ab api k = Inr r)" by auto
      show ?thesis unfolding R_def w using r1 r2 r3 r4 by (intro conjI)
    qed
    then show "P i job (?evs, job, Inl e)" unfolding P_def prod.case by blast
  next
    fix i job evs' rest
    let ?c = "min (i + CONCURRENCY_LIMIT) numChunks"
    let ?b = "[i ..< ?c]"
    let ?job' = "waveJob ab api numChunks ?c job"
    let ?E = "map Issued ?b @ map Settled (sort_key lat ?b) @ Published ?job' # evs'"
    assume i: "i < numChunks"
      and ok: "\<forall>c \<in> set ?b. \<exists>r. chunkTask ab api c = Inr r"
      and run': "loopFrom ab api lat numChunks (i + CONCURRENCY_LIMIT) ?job' = (evs', rest)"
      and IH: "P (i + CONCURRENCY_LIMIT) ?job' (evs', rest)"
    obtain jobF res where rest: "rest = (jobF, res)" by (cases rest)
    have "R i job ?E jobF res (CONCURRENCY_LIMIT * (j div CONCURRENCY_LIMIT))"
      if dvd: "CONCURRENCY_LIMIT dvd i" and j: "Issued j \<in> set ?E"
        and fail: "chunkTask ab api j = Inl e" for j e
    proof -
      let ?w = "CONCURRENCY_LIMIT * (j div CONCURRENCY_LIMIT)"
      have "j \<notin> set ?b"
      proof
        assume "j \<in> set ?b"
        with ok obtain r where "chunkTask ab api j = Inr r" by blast
        with fail show False by simp
      qed
      with j have j': "Issued j \<in> set evs'" by auto
      then have jr: "i + CONCURRENCY_LIMIT \<le> j" "j < numChunks"
        using loop_events_range [OF run' [unfolded rest]] by blast+
      have w: "i + CONCURRENCY_LIMIT \<le> ?w" using wave_start_later [OF dvd jr(1)] .
      have c: "?c = i + CONCURRENCY_LIMIT" using jr by simp
      have d': "CONCURRENCY_LIMIT dvd i + CONCURRENCY_LIMIT" using dvd by simp
      from IH d' j' fail have r: "R (i + CONCURRENCY_LIMIT) ?job' evs' jobF res ?w"
        unfolding P_def rest prod.case by blast
      note r' = r [unfolded R_def]
      have r1: "\<exists>pre k post e'.
            sort_key lat [?w ..< min (?w + CONCURRENCY_LIMIT) numChunks] = pre @ k # post \<and>
            (\<forall>c \<in> set pre. \<exists>r. chunkTask ab api c = Inr r) \<and>
            chunkTask ab api k = Inl e' \<and> res = Inl e'"
        by (rule conjunct1 [OF r'])
      have r2: "\<forall>j'. Issued j' \<in> set evs' \<longrightarrow> j' < ?w + CONCURRENCY_LIMIT"
        by (rule conjunct1 [OF conjunct2 [OF r']])
      have r3: "jobF = (if ?w = i + CONCURRENCY_LIMIT then ?job'
                        else waveJob ab api numChunks ?w ?job')"
        by (rule conjunct1 [OF conjunct2 [OF conjunct2 [OF r']]])
      have r4: "\<forall>k. i + CONCURRENCY_LIMIT \<le> k \<and> k < ?w \<longrightarrow>
                  (\<exists>r. chunkTask ab api k = Inr r)"
        by (rule conjunct2 [OF conjunct2 [OF conjunct2 [OF r']]])
      have r4': "\<forall>k. i \<le> k \<and> k < ?w \<longrightarrow> (\<exists>r. chunkTask ab api k = Inr r)"
      proof (intro allI impI)
        fix k assume k: "i \<le> k \<and> k < ?w"
        show "\<exists>r. chunkTask ab api k = Inr r"
        proof (cases "k < i + CONCURRENCY_LIMIT")
          case True
          with k have "k \<in> set ?b" unfolding c by simp
          with ok show ?thesis by blast
        next
          case False
          with k r4 show ?thesis by simp
        qed
      qed
      have "jobF = waveJob ab api numChunks ?w job"
        using r3 unfolding c by (simp add: waveJob_waveJob)
      moreover have "?w \<noteq> i" using w by (simp add: CONCURRENCY_LIMIT_def)
      ultimately have r3': "jobF = (if ?w = i then job else waveJob ab api numChunks ?w job)"
        by simp
      have inb: "j' < ?w + CONCURRENCY_LIMIT" if "j' \<in> set ?b" for j'
        using that w by simp
      have r2': "\<forall>j'. Issued j' \<in> set ?E \<longrightarrow> j' < ?w + CONCURRENCY_LIMIT"
        using r2 inb by auto
      show ?thesis unfolding R_def using r1 r2' r3' r4' by (intro conjI)
    qed
    then show "P i job (?E, rest)" unfolding P_def rest prod.case by blast
  qed
  then have "R i job evs jobF res (CONCURRENCY_LIMIT * (j div CONCURRENCY_LIMIT))"
    using dvd issued fail unfolding P_def run prod.case by blast
  then show ?thesis unfolding R_def .
qed


subsection \<open>Waves\<close>

lemma length_waves: "length (waves numChunks) = (numChunks + 9) div 10"
  by (simp add: waves_def CONCURRENCY_LIMIT_def)

lemma length_waves_ceiling:
  "length (waves numChunks) = nat \<lceil>real numChunks / real CONCURRENCY_LIMIT\<rceil>"
proof -
  have "\<lceil>real numChunks / 10\<rceil> = \<lceil>real_of_int (int numChunks) / real_of_int 10\<rceil>"
    by simp
  also have "\<dots> = - (- int numChunks div 10)" by (rule ceiling_divide_eq_div)
  also have "\<dots> = (int numChunks + 9) div 10" by presburger
  also have "\<dots> = int ((numChunks + 9) div 10)" by (simp add: zdiv_int)
  finally show ?thesis by (simp add: length_waves CONCURRENCY_LIMIT_def)
qed

lemma waves_nth:
  assumes "w < length (waves numChunks)"
  shows "waves numChunks ! w =
     [CONCURRENCY_LIMIT * w ..< min (CONCURRENCY_LIMIT * w + CONCURRENCY_LIMIT) numChunks]"
    and "CONCURRENCY_LIMIT * w < numChunks"
proof -
  have w: "w < (numChunks + 9) div 10" using assms by (simp add: length_waves)
  then show lt: "CONCURRENCY_LIMIT * w < numChunks" by (simp add: CONCURRENCY_LIMIT_def)
  have len: "w < length [0 ..< (numChunks + CONCURRENCY_LIMIT - 1) div CONCURRENCY_LIMIT]"
    using assms by (simp add: waves_def)
  then have "[0 ..< (numChunks + CONCURRENCY_LIMIT - 1) div CONCURRENCY_LIMIT] ! w = w"
    by simp
  then have "waves numChunks ! w = chunkBatchIndices (w * CONCURRENCY_LIMIT) numChunks"
    unfolding waves_def using nth_map [OF len] by simp
  then show "waves numChunks ! w =
     [CONCURRENCY_LIMIT * w ..< min (CONCURRENCY_LIMIT * w + CONCURRENCY_LIMIT) numChunks]"
    using chunkBatchIndices_range [OF lt] by (simp add: mult.commute)
qed

lemma waves_member:
  assumes "w < length (waves numChunks)"
  shows "j \<in> set (waves numChunks ! w) \<longleftrightarrow> j < numChunks \<and> j div CONCURRENCY_LIMIT = w"
proof -
  have "j \<in> set (waves numChunks ! w) \<longleftrightarrow> 10 * w \<le> j \<and> j < 10 * w + 10 \<and> j < numChunks"
    using waves_nth(1) [OF assms] by (auto simp: CONCURRENCY_LIMIT_def)
  also have "\<dots> \<longleftrightarrow> j < numChunks \<and> j div 10 = w" by auto
  finally show ?thesis by (simp add: CONCURRENCY_LIMIT_def)
qed

lemma waves_bounded:
  assumes "wave \<in> set (waves numChunks)"
  shows "wave \<noteq> [] \<and> length wave \<le> CONCURRENCY_LIMIT"
proof -
  from assms obtain w where w: "w < length (waves numChunks)" "wave = waves numChunks ! w"
    by (auto simp: in_set_conv_nth)
  have "CONCURRENCY_LIMIT * w < min (CONCURRENCY_LIMIT * w + CONCURRENCY_LIMIT) numChunks"
    using waves_nth(2) [OF w(1)] by (simp add: CONCURRENCY_LIMIT_def)
  moreover have "min (CONCURRENCY_LIMIT * w + CONCURRENCY_LIMIT) numChunks - CONCURRENCY_LIMIT * w
      \<le> CONCURRENCY_LIMIT" by arith
  moreover have "[a ..< b] \<noteq> [] \<and> length [a ..< b] \<le> CONCURRENCY_LIMIT"
    if "a < b" "b - a \<le> CONCURRENCY_LIMIT" for a b :: nat
    using that by simp
  ultimately show ?thesis unfolding w(2) waves_nth(1) [OF w(1)] by blast
qed

lemma concat_take_waves:
  "concat (take m (waves numChunks)) = [0 ..< min (CONCURRENCY_LIMIT * m) numChunks]"
proof (induction m)
  case 0
  then show ?case by simp
next
  case (Suc m)
  show ?case
  proof (cases "m < length (waves numChunks)")
    case True
    have a: "min (CONCURRENCY_LIMIT * m) numChunks = CONCURRENCY_LIMIT * m"
      using waves_nth(2) [OF True] by simp
    have "concat (take (Suc m) (waves numChunks)) =
          [0 ..< CONCURRENCY_LIMIT * m] @
          [CONCURRENCY_LIMIT * m ..< min (CONCURRENCY_LIMIT * m + CONCURRENCY_LIMIT) numChunks]"
      using Suc waves_nth(1) [OF True] True by (simp add: take_Suc_conv_app_nth a)
    also have "\<dots> = [0 ..< min (CONCURRENCY_LIMIT * m + CONCURRENCY_LIMIT) numChunks]"
      using waves_nth(2) [OF True] by (intro upt_join) simp_all
    finally show ?thesis by (simp add: add.commute)
  next
    case False
    then have "(numChunks + 9) div 10 \<le> m" by (simp add: length_waves)
    then have "numChunks \<le> 10 * m" by presburger
    then have "min (CONCURRENCY_LIMIT * Suc m) numChunks = min (CONCURRENCY_LIMIT * m) numChunks"
      by (simp add: CONCURRENCY_LIMIT_def)
    then show ?thesis using False Suc by simp
  qed
qed

lemma concat_waves: "concat (waves numChunks) = [0 ..< numChunks]"
proof -
  have "numChunks \<le> 10 * ((numChunks + 9) div 10)" by presburger
  then have "min (CONCURRENCY_LIMIT * length (waves numChunks)) numChunks = numChunks"
    by (simp add: length_waves CONCURRENCY_LIMIT_def)
  then show ?thesis using concat_take_waves [of "length (waves numChunks)" numChunks] by simp
qed

subsection \<open>Sorting the turns of a permutation of the completed segments\<close>

lemma sort_chunkTurns:
  assumes "mset ks = mset [0 ..< c]"
  shows "sort_key startTime (map (chunkTurn ab api) ks) = map (chunkTurn ab api) [0 ..< c]"
proof (rule properties_for_sort_key)
  show "mset (map (chunkTurn ab api) [0 ..< c]) = mset (map (chunkTurn ab api) ks)"
    using assms by (simp only: mset_map)
  show "sorted (map startTime (map (chunkTurn ab api) [0 ..< c]))"
    using sorted_startTimes_upt [of 0 c] by (simp add: comp_def startTime_chunkTurn)
  fix t
  assume "t \<in> set (map (chunkTurn ab api) [0 ..< c])"
  then obtain k where k: "k < c" "t = chunkTurn ab api k" by auto
  have dks: "distinct ks" using assms by (metis distinct_upt mset_eq_imp_distinct_iff)
  have kks: "k \<in> set ks" using assms k(1) by (metis atLeastLessThan_iff set_upt mset_eq_setD le0)
  have eq: "(startTime t = startTime (chunkTurn ab api z)) = (z = k)" for z
    unfolding k(2) by (auto simp: startTime_chunkTurn)
  have one: "distinct zs \<Longrightarrow> k \<in> set zs \<Longrightarrow> filter (\<lambda>z. z = k) zs = [k]" for zs :: "nat list"
    by (induction zs) (auto simp: filter_empty_conv)
  have "filter (\<lambda>x. startTime t = startTime x) (map (chunkTurn ab api) zs) =
        map (chunkTurn ab api) (filter (\<lambda>z. z = k) zs)" for zs
    by (simp add: filter_map comp_def eq)
  then show "filter (\<lambda>x. startTime t = startTime x) (map (chunkTurn ab api) [0 ..< c]) =
        filter (\<lambda>x. startTime t = startTime x) (map (chunkTurn ab api) ks)"
    using one [OF dks kks] one [of "[0 ..< c]"] k(1) by simp
qed

subsection \<open>The run of processFile\<close>

lemma slotsUpTo_0: "slotsUpTo ab api numChunks 0 = replicate numChunks None"
  by (simp add: slotsUpTo_def map_replicate_const)

lemma processFile_run:
  obtains evs jobF res where
    "loopFrom ab api lat (numChunksOf ab) 0
        (file0\<lparr>status := PROCESSING, progress := 5, status := TRANSCRIBING\<rparr>) = (evs, jobF, res)"
    "processFile (Some file0) (Inr ab) api lat =
       Published (file0\<lparr>status := PROCESSING, progress := 5\<rparr>) #
       Published (file0\<lparr>status := PROCESSING, progress := 5, status := TRANSCRIBING\<rparr>) #
       evs @
       [Published (case res of
           Inl e \<Rightarrow> catchHandler e jobF
         | Inr slots \<Rightarrow> jobF\<lparr>status := DONE, progress := 100,
                              transcription := sortedTurns slots\<rparr>)]"
proof -
  let ?job2 = "file0\<lparr>status := PROCESSING, progress := 5, status := TRANSCRIBING\<rparr>"
  obtain evs jobF res where
    run: "loopFrom ab api lat (numChunksOf ab) 0 ?job2 = (evs, jobF, res)"
    by (cases "loopFrom ab api lat (numChunksOf ab) 0 ?job2")
  have "processFile (Some file0) (Inr ab) api lat =
       Published (file0\<lparr>status := PROCESSING, progress := 5\<rparr>) # Published ?job2 # evs @
       [Published (case res of
           Inl e \<Rightarrow> catchHandler e jobF
         | Inr slots \<Rightarrow> jobF\<lparr>status := DONE, progress := 100,
                              transcription := sortedTurns slots\<rparr>)]"
    using run by (cases res) (simp_all add: processFile_def Let_def slotsUpTo_0)
  with run show thesis by (rule that)
qed


lemma prefix_trace_cases:
  assumes "prefix (p @ [x]) (a # b # evs @ [f])"
  obtains "p = []" "x = a" | "p = [a]" "x = b"
    | q where "p = a # b # q" "prefix (q @ [x]) evs"
    | "p = a # b # evs" "x = f"
proof -
  from prefix_snoc_append [of p x "[]" a "b # evs @ [f]"] assms
  consider "p = []" "x = a" | q1 where "p = a # q1" "prefix (q1 @ [x]) (b # evs @ [f])"
    by auto
  then show thesis
  proof cases
    case 1
    then show ?thesis by (rule that(1))
  next
    case 2
    from prefix_snoc_append [of q1 x "[]" b "evs @ [f]"] 2(2)
    consider "q1 = []" "x = b" | q where "q1 = b # q" "prefix (q @ [x]) (evs @ [f])"
      by auto
    then show ?thesis
    proof cases
      case 1
      with 2(1) show ?thesis by (intro that(2)) simp_all
    next
      case q: 2
      from prefix_snoc_append [of q x evs f "[]"] q(2)
      consider "prefix (q @ [x]) evs" | "q = evs" "x = f"
        by auto
      then show ?thesis
      proof cases
        case 1
        with 2(1) q(1) show ?thesis by (intro that(3) [of q]) simp_all
      next
        case 2
        with \<open>p = a # q1\<close> q(1) show ?thesis by (intro that(4)) simp_all
      qed
    qed
  qed
qed

lemma loop_settled_ok:
  assumes run: "loopFrom ab api lat numChunks i job = (evs, jobF, res)"
  shows "prefix (p @ [Published job']) evs \<Longrightarrow> k \<in> set (settledOf p) \<Longrightarrow>
           \<exists>r. chunkTask ab api k = Inr r"
    and "res = Inr slots \<Longrightarrow> k \<in> set (settledOf evs) \<Longrightarrow> \<exists>r. chunkTask ab api k = Inr r"
proof -
  define P :: "nat \<Rightarrow> TranscribedFile \<Rightarrow> Event list \<times> TranscribedFile \<times> (JsThrown + Slots) \<Rightarrow> bool"
    where "P = (\<lambda>i job (evs, jobF, res).
      (\<forall>p job' k. prefix (p @ [Published job']) evs \<and> k \<in> set (settledOf p) \<longrightarrow>
           (\<exists>r. chunkTask ab api k = Inr r)) \<and>
      (\<forall>slots k. res = Inr slots \<and> k \<in> set (settledOf evs) \<longrightarrow>
           (\<exists>r. chunkTask ab api k = Inr r)))"
  have "P i job (loopFrom ab api lat numChunks i job)"
  proof (rule transcribeLoop_induct)
    fix i job
    show "P i job ([], job, Inr (slotsUpTo ab api numChunks numChunks))"
      by (simp add: P_def settledOf_simps)
  next
    fix i job pre k post e
    have "(Inl e :: JsThrown + Slots) \<noteq> Inr slots" for slots by simp
    then show "P i job (map Issued [i ..< min (i + CONCURRENCY_LIMIT) numChunks] @
                     map Settled (pre @ [k]), job, Inl e)"
      unfolding P_def prod.case using wave_block_no_published by blast
  next
    fix i job evs' rest
    let ?c = "min (i + CONCURRENCY_LIMIT) numChunks"
    let ?b = "[i ..< ?c]"
    let ?B = "map Issued ?b @ map Settled (sort_key lat ?b)"
    let ?job' = "waveJob ab api numChunks ?c job"
    assume ok: "\<forall>c \<in> set ?b. \<exists>r. chunkTask ab api c = Inr r"
    assume IH: "P (i + CONCURRENCY_LIMIT) ?job' (evs', rest)"
    obtain jobF res where rest: "rest = (jobF, res)" by (cases rest)
    have sB: "settledOf ?B = sort_key lat ?b"
      by (simp add: settledOf_simps observe_map_Issued observe_map_Settled)
    have inB: "\<exists>r. chunkTask ab api k = Inr r" if "k \<in> set (settledOf ?B)" for k
      using ok that unfolding sB by simp
    have a: "\<exists>r. chunkTask ab api k = Inr r"
      if p: "prefix (p @ [Published job']) (?B @ Published ?job' # evs')"
        and k: "k \<in> set (settledOf p)" for p job' k
    proof -
      from prefix_snoc_append [OF p] wave_block_no_published
      consider "p = ?B"
        | q where "p = ?B @ Published ?job' # q" "prefix (q @ [Published job']) evs'"
        by blast
      then show ?thesis
      proof cases
        case 1
        with k inB show ?thesis by blast
      next
        case 2
        have "settledOf p = settledOf ?B @ settledOf q"
          unfolding 2(1) by (simp only: settledOf_simps)
        with k consider "k \<in> set (settledOf ?B)" | "k \<in> set (settledOf q)" by auto
        then show ?thesis
        proof cases
          case 1
          then show ?thesis by (rule inB)
        next
          case 2
          with IH \<open>prefix (q @ [Published job']) evs'\<close> show ?thesis
            unfolding P_def rest prod.case by blast
        qed
      qed
    qed
    have b: "\<exists>r. chunkTask ab api k = Inr r"
      if r: "res = Inr slots" and k: "k \<in> set (settledOf (?B @ Published ?job' # evs'))"
      for slots k
    proof -
      have "settledOf (?B @ Published ?job' # evs') = settledOf ?B @ settledOf evs'"
        by (simp only: settledOf_simps)
      with k consider "k \<in> set (settledOf ?B)" | "k \<in> set (settledOf evs')" by auto
      then show ?thesis
      proof cases
        case 1
        then show ?thesis by (rule inB)
      next
        case 2
        with IH r show ?thesis unfolding P_def rest prod.case by blast
      qed
    qed
    have "P i job (?B @ Published ?job' # evs', rest)"
      unfolding P_def rest prod.case using a b by blast
    then show "P i job (map Issued ?b @ map Settled (sort_key lat ?b) @
                 Published ?job' # evs', rest)"
      by (simp only: append_assoc)
  qed
  then have all: "(\<forall>p job' k. prefix (p @ [Published job']) evs \<and> k \<in> set (settledOf p) \<longrightarrow>
           (\<exists>r. chunkTask ab api k = Inr r)) \<and>
      (\<forall>slots k. res = Inr slots \<and> k \<in> set (settledOf evs) \<longrightarrow>
           (\<exists>r. chunkTask ab api k = Inr r))"
    unfolding P_def run prod.case .
  show "prefix (p @ [Published job']) evs \<Longrightarrow> k \<in> set (settledOf p) \<Longrightarrow>
           \<exists>r. chunkTask ab api k = Inr r"
    using all by blast
  show "res = Inr slots \<Longrightarrow> k \<in> set (settledOf evs) \<Longrightarrow> \<exists>r. chunkTask ab api k = Inr r"
    using all by blast
qed

lemma outstanding_trace:
  assumes run: "loopFrom ab api lat numChunks 0 job = (evs, jobF, res)"
    and p: "prefix p (Published a # Published b # evs @ [Published f])"
  shows "card (outstandingAfter {} p) \<le> CONCURRENCY_LIMIT"
proof -
  have loop: "card (outstandingAfter {} q) \<le> CONCURRENCY_LIMIT" if "prefix q evs" for q
    using loop_outstanding(1) [OF run that] .
  consider "p = []" | "p = [Published a]"
    | q where "p = Published a # Published b # q" "prefix q (evs @ [Published f])"
    using p by (auto simp: prefix_Cons)
  then show ?thesis
  proof cases
    case 3
    from 3(2) consider "prefix q evs" | "q = evs @ [Published f]"
      by (auto simp: prefix_snoc)
    then show ?thesis
    proof cases
      case 1
      then show ?thesis using loop 3(1) by simp
    next
      case 2
      then have "outstandingAfter {} p = outstandingAfter {} evs"
        using 3(1) by (simp add: outstandingAfter_append)
      then show ?thesis using loop [of evs] by simp
    qed
  qed simp_all
qed


subsection \<open>The sample job\<close>

lemma demo_numChunks: "numChunksOf demoBuffer = 12"
  by (simp add: demoBuffer_def numChunksOf_def chunkTotalSamples_def CHUNK_SIZE_SECONDS_def)

lemma demo_sampleRate: "0 < sampleRate demoBuffer"
  by (simp add: demoBuffer_def)

lemma demoApi_ok: "\<exists>r. chunkTask ab demoApi c = Inr r"
  by (simp add: chunkTask_def demoApi_def transcribeAudio_cases startsWith_def)

lemma demoFailingApi_ok: "c < 10 \<Longrightarrow> \<exists>r. chunkTask ab demoFailingApi c = Inr r"
  by (simp add: chunkTask_def demoFailingApi_def transcribeAudio_cases startsWith_def)

lemma demoFailingApi_rejects:
  "chunkTask ab demoFailingApi 10 = Inl (ErrorInstance ''Error: API call failed - quota'')"
  "chunkTask ab demoFailingApi 11 = Inl (ErrorInstance ''Error: busy'')"
  by (simp_all add: chunkTask_def demoFailingApi_def transcribeAudio_cases startsWith_def)

lemma demo_order:
  "sort_key demoLatency [0 ..< 10] = [9, 8, 7, 6, 5, 4, 3, 2, 1, 0]"
  "sort_key demoLatency [10 ..< 12] = [11, 10]"
  by (simp_all add: demoLatency_def upt_rec)

lemma demo_loop_exit:
  "transcribeLoop ab api lat 12 20 slots cp job = ([], job, Inr slots)"
  by (rule loop_exit) simp

lemma demo_loop:
  "loopFrom demoBuffer demoApi lat 12 0 job =
     (map Issued [0 ..< 10] @ map Settled (sort_key lat [0 ..< 10]) @
      Published (waveJob demoBuffer demoApi 12 10 job) #
      map Issued [10 ..< 12] @ map Settled (sort_key lat [10 ..< 12]) @
      [Published (waveJob demoBuffer demoApi 12 12 job)],
      waveJob demoBuffer demoApi 12 12 job,
      Inr (slotsUpTo demoBuffer demoApi 12 12))"
proof -
  have w1: "transcribeLoop demoBuffer demoApi lat 12 10 (slotsUpTo demoBuffer demoApi 12 10) 10 j =
     (map Issued [10 ..< 12] @ map Settled (sort_key lat [10 ..< 12]) @
      [Published (waveJob demoBuffer demoApi 12 12 j)],
      waveJob demoBuffer demoApi 12 12 j, Inr (slotsUpTo demoBuffer demoApi 12 12))" for j
    using loop_wave_ok [of 10 12 demoBuffer demoApi lat j] demoApi_ok
    by (simp add: CONCURRENCY_LIMIT_def demo_loop_exit)
  show ?thesis
    using loop_wave_ok [of 0 12 demoBuffer demoApi lat job] demoApi_ok
    by (simp add: CONCURRENCY_LIMIT_def w1 waveJob_waveJob)
qed

lemma demo_failing_loop:
  "loopFrom demoBuffer demoFailingApi demoLatency 12 0 job =
     (map Issued [0 ..< 10] @ map Settled (sort_key demoLatency [0 ..< 10]) @
      Published (waveJob demoBuffer demoFailingApi 12 10 job) #
      map Issued [10 ..< 12] @ map Settled [11],
      waveJob demoBuffer demoFailingApi 12 10 job,
      Inl (ErrorInstance ''Error: busy''))"
proof -
  have w1: "transcribeLoop demoBuffer demoFailingApi demoLatency 12 10 slots cp j =
     (map Issued [10 ..< 12] @ map Settled [11], j, Inl (ErrorInstance ''Error: busy''))"
    for slots cp j
    using loop_wave_reject [of 10 12 demoLatency "[]" 11 "[10]" demoBuffer demoFailingApi
        "ErrorInstance ''Error: busy''" slots cp j]
    by (simp add: CONCURRENCY_LIMIT_def demoLatency_def demoFailingApi_rejects)
  have ok: "\<forall>c \<in> set [0 ..< min (0 + CONCURRENCY_LIMIT) 12].
      \<exists>r. chunkTask demoBuffer demoFailingApi c = Inr r"
    using demoFailingApi_ok by (simp add: CONCURRENCY_LIMIT_def)
  show ?thesis
    using loop_wave_ok [OF _ ok, of demoLatency job]
    by (simp add: CONCURRENCY_LIMIT_def w1)
qed

lemma demo_trace:
  "processFile (Some (newFile ''a.wav'')) (Inr demoBuffer) demoApi lat =
     Published ((newFile ''a.wav'')\<lparr>status := PROCESSING, progress := 5\<rparr>) #
     Published demoJob #
     map Issued [0 ..< 10] @ map Settled (sort_key lat [0 ..< 10]) @
     Published (waveJob demoBuffer demoApi 12 10 demoJob) #
     map Issued [10 ..< 12] @ map Settled (sort_key lat [10 ..< 12]) @
     [Published (waveJob demoBuffer demoApi 12 12 demoJob),
      Published ((waveJob demoBuffer demoApi 12 12 demoJob)
         \<lparr>status := DONE, progress := 100,
          transcription := map (chunkTurn demoBuffer demoApi) [0 ..< 12]\<rparr>)]"
proof -
  have run: "transcribeLoop demoBuffer demoApi lat 12 0 (replicate 12 None) 0 demoJob =
     (map Issued [0 ..< 10] @ map Settled (sort_key lat [0 ..< 10]) @
      Published (waveJob demoBuffer demoApi 12 10 demoJob) #
      map Issued [10 ..< 12] @ map Settled (sort_key lat [10 ..< 12]) @
      [Published (waveJob demoBuffer demoApi 12 12 demoJob)],
      waveJob demoBuffer demoApi 12 12 demoJob,
      Inr (slotsUpTo demoBuffer demoApi 12 12))"
    using demo_loop [of lat demoJob] by (simp only: min_0L slotsUpTo_0)
  have job2: "(newFile ''a.wav'')\<lparr>status := PROCESSING, progress := 5\<rparr>
       \<lparr>status := TRANSCRIBING\<rparr> = demoJob"
    by (simp add: demoJob_def)
  show ?thesis
    by (simp only: processFile_def Let_def demo_numChunks option.case sum.case job2 run
        prod.case sortedTurns_slotsUpTo [OF order_refl] append_Cons append_Nil append_assoc)
qed

lemma demo_failing_trace:
  "processFile (Some (newFile ''a.wav'')) (Inr demoBuffer) demoFailingApi demoLatency =
     Published ((newFile ''a.wav'')\<lparr>status := PROCESSING, progress := 5\<rparr>) #
     Published demoJob #
     map Issued [0 ..< 10] @ map Settled (sort_key demoLatency [0 ..< 10]) @
     Published (waveJob demoBuffer demoFailingApi 12 10 demoJob) #
     map Issued [10 ..< 12] @ map Settled [11] @
     [Published (catchHandler (ErrorInstance ''Error: busy'')
        (waveJob demoBuffer demoFailingApi 12 10 demoJob))]"
proof -
  have run: "transcribeLoop demoBuffer demoFailingApi demoLatency 12 0 (replicate 12 None) 0
       demoJob =
     (map Issued [0 ..< 10] @ map Settled (sort_key demoLatency [0 ..< 10]) @
      Published (waveJob demoBuffer demoFailingApi 12 10 demoJob) #
      map Issued [10 ..< 12] @ map Settled [11],
      waveJob demoBuffer demoFailingApi 12 10 demoJob,
      Inl (ErrorInstance ''Error: busy''))"
    using demo_failing_loop [of demoJob] by (simp only: min_0L slotsUpTo_0)
  have job2: "(newFile ''a.wav'')\<lparr>status := PROCESSING, progress := 5\<rparr>
       \<lparr>status := TRANSCRIBING\<rparr> = demoJob"
    by (simp add: demoJob_def)
  show ?thesis
    by (simp only: processFile_def Let_def demo_numChunks option.case sum.case job2 run
        prod.case append_Cons append_Nil append_assoc)
qed


lemma sorted_wrt_last:
  "sorted_wrt P xs \<Longrightarrow> (\<And>x. P x x) \<Longrightarrow> x \<in> set xs \<Longrightarrow> P x (last xs)"
  by (induction xs) auto


lemma trace_last_published:
  "last (publishedOf (Published a # Published b # evs @ [Published f])) = f"
  "last (Published a # Published b # evs @ [Published f]) = Published f"
  by (simp_all add: publishedOf_simps)

lemma div_wave_bound:
  assumes "a < (n::nat)"
  shows "a div 10 < (n + 9) div 10"
proof -
  have "a \<le> n - 1" using assms by simp
  then have "a div 10 \<le> (n - 1) div 10" by (rule div_le_mono)
  moreover have "n + 9 = (n - 1) + 10" using assms by simp
  then have "(n + 9) div 10 = Suc ((n - 1) div 10)" by (simp only: div_add_self2)
  ultimately show ?thesis by simp
qed


lemma demo_wave1_prefix:
  "prefix
     ((Published ((newFile ''a.wav'')\<lparr>status := PROCESSING, progress := 5\<rparr>) #
       Published demoJob #
       map Issued [0 ..< 10] @ map Settled (sort_key lat [0 ..< 10])) @
      [Published (waveJob demoBuffer demoApi 12 10 demoJob)])
     (processFile (Some (newFile ''a.wav'')) (Inr demoBuffer) demoApi lat)"
  unfolding demo_trace by (simp add: prefix_def)

lemma demo_wave1_observed:
  "settledOf
     (Published ((newFile ''a.wav'')\<lparr>status := PROCESSING, progress := 5\<rparr>) #
       Published demoJob #
       map Issued [0 ..< 10] @ map Settled (sort_key lat [0 ..< 10])) = sort_key lat [0 ..< 10]"
  "publishedOf
     (Published ((newFile ''a.wav'')\<lparr>status := PROCESSING, progress := 5\<rparr>) #
       Published demoJob #
       map Issued [0 ..< 10] @ map Settled (sort_key lat [0 ..< 10])) =
     [(newFile ''a.wav'')\<lparr>status := PROCESSING, progress := 5\<rparr>, demoJob]"
  by (simp_all add: settledOf_simps publishedOf_simps observe_map_Issued observe_map_Settled
      del: upt_rec_numeral)

lemma demo_wave1_settled:
  "settledOf
     (Published ((newFile ''a.wav'')\<lparr>status := PROCESSING, progress := 5\<rparr>) #
       Published demoJob #
       map Issued [0 ..< 10] @ map Settled (sort_key demoLatency [0 ..< 10])) =
     [9, 8, 7, 6, 5, 4, 3, 2, 1, 0]"
  unfolding demo_wave1_observed(1) by (rule demo_order(1))

lemma demo_published:
  "publishedOf (processFile (Some (newFile ''a.wav'')) (Inr demoBuffer) demoApi lat) =
     [(newFile ''a.wav'')\<lparr>status := PROCESSING, progress := 5\<rparr>, demoJob,
      waveJob demoBuffer demoApi 12 10 demoJob, waveJob demoBuffer demoApi 12 12 demoJob,
      (waveJob demoBuffer demoApi 12 12 demoJob)
         \<lparr>status := DONE, progress := 100,
          transcription := map (chunkTurn demoBuffer demoApi) [0 ..< 12]\<rparr>]"
  unfolding demo_trace
  by (simp add: publishedOf_simps observe_map_Issued observe_map_Settled
      del: upt_rec_numeral)

lemma demo_failing_published:
  "publishedOf (processFile (Some (newFile ''a.wav'')) (Inr demoBuffer) demoFailingApi
      demoLatency) =
     [(newFile ''a.wav'')\<lparr>status := PROCESSING, progress := 5\<rparr>, demoJob,
      waveJob demoBuffer demoFailingApi 12 10 demoJob,
      catchHandler (ErrorInstance ''Error: busy'')
        (waveJob demoBuffer demoFailingApi 12 10 demoJob)]"
  unfolding demo_failing_trace
  by (simp add: publishedOf_simps observe_map_Issued observe_map_Settled
      del: upt_rec_numeral)

lemma demo_failing_issued:
  "Issued 10 \<in> set (processFile (Some (newFile ''a.wav'')) (Inr demoBuffer) demoFailingApi
      demoLatency)"
  "Issued 11 \<in> set (processFile (Some (newFile ''a.wav'')) (Inr demoBuffer) demoFailingApi
      demoLatency)"
  unfolding demo_failing_trace by simp_all

lemma demo_status: "status demoJob = TRANSCRIBING"
  by (simp add: demoJob_def)


subsection \<open>Runs in which every request succeeds\<close>

lemma loop_ok_prefix:
  assumes ok: "\<forall>c < numChunks. \<exists>r. chunkTask ab api c = Inr r"
    and k: "i + CONCURRENCY_LIMIT * k < numChunks"
    and run: "loopFrom ab api lat numChunks i job = (evs, jobF, res)"
  shows "\<exists>p. prefix (p @ [Published (waveJob ab api numChunks
                   (min (i + CONCURRENCY_LIMIT * Suc k) numChunks) job)]) evs
           \<and> length (settledOf p) = min (i + CONCURRENCY_LIMIT * Suc k) numChunks - i"
  using k run
proof (induction k arbitrary: i job evs jobF res)
  case 0
  let ?c = "min (i + CONCURRENCY_LIMIT) numChunks"
  let ?job' = "waveJob ab api numChunks ?c job"
  let ?W = "map Issued [i ..< ?c] @ map Settled (sort_key lat [i ..< ?c])"
  from 0(1) have i: "i < numChunks" by simp
  have ok': "\<forall>c \<in> set [i ..< ?c]. \<exists>r. chunkTask ab api c = Inr r" using ok by simp
  obtain evs' rest where
    "transcribeLoop ab api lat numChunks (i + CONCURRENCY_LIMIT)
       (slotsUpTo ab api numChunks ?c) ?c ?job' = (evs', rest)"
    by (cases "transcribeLoop ab api lat numChunks (i + CONCURRENCY_LIMIT)
       (slotsUpTo ab api numChunks ?c) ?c ?job'")
  with loop_wave_ok [OF i ok', of lat job] 0(2) i
  have evs: "evs = ?W @ Published ?job' # evs'" by (simp add: min_absorb1)
  have "prefix (?W @ [Published ?job']) evs" unfolding evs by (simp add: prefix_def)
  moreover have "length (settledOf ?W) = ?c - i"
    by (simp add: settledOf_simps observe_map_Issued observe_map_Settled del: upt_rec_numeral)
  ultimately show ?case by (intro exI [of _ ?W]) simp
next
  case (Suc k)
  let ?c = "i + CONCURRENCY_LIMIT"
  let ?job' = "waveJob ab api numChunks ?c job"
  let ?W = "map Issued [i ..< ?c] @ map Settled (sort_key lat [i ..< ?c])"
  from Suc(2) have i: "i < numChunks" and c: "?c < numChunks"
    and k: "?c + CONCURRENCY_LIMIT * k < numChunks"
    by simp_all
  have m: "min ?c numChunks = ?c" using c by simp
  have ok': "\<forall>c \<in> set [i ..< min ?c numChunks]. \<exists>r. chunkTask ab api c = Inr r"
    using ok by simp
  obtain evs' jobF' res' where
    next_run: "loopFrom ab api lat numChunks ?c ?job' = (evs', jobF', res')"
    by (cases "loopFrom ab api lat numChunks ?c ?job'")
  with loop_wave_ok [OF i ok', of lat job] Suc(3) i
  have evs: "evs = ?W @ Published ?job' # evs'" by (simp add: m min_absorb1)
  from Suc.IH [OF k next_run]
  obtain p where p: "prefix (p @ [Published (waveJob ab api numChunks
        (min (?c + CONCURRENCY_LIMIT * Suc k) numChunks) job)]) evs'"
    "length (settledOf p) = min (?c + CONCURRENCY_LIMIT * Suc k) numChunks - ?c"
    by (auto simp: waveJob_waveJob)
  have e: "?c + CONCURRENCY_LIMIT * Suc k = i + CONCURRENCY_LIMIT * Suc (Suc k)" by simp
  let ?p = "?W @ Published ?job' # p"
  have "prefix (?p @ [Published (waveJob ab api numChunks
        (min (i + CONCURRENCY_LIMIT * Suc (Suc k)) numChunks) job)]) evs"
    using p(1) unfolding evs e by (simp add: prefix_def)
  moreover have "length (settledOf ?p) = min (i + CONCURRENCY_LIMIT * Suc (Suc k)) numChunks - i"
  proof -
    have w: "length (settledOf ?W) = CONCURRENCY_LIMIT"
      by (simp add: settledOf_simps observe_map_Issued observe_map_Settled
          del: upt_rec_numeral)
    have ge: "?c \<le> min (i + CONCURRENCY_LIMIT * Suc (Suc k)) numChunks" using c by simp
    have "length (settledOf ?p) = length (settledOf ?W) + length (settledOf p)"
      by (simp add: settledOf_simps)
    then show ?thesis unfolding w p(2) e using ge by linarith
  qed
  ultimately show ?case by (rule_tac x = "?p" in exI) simp
qed

lemma hour_numChunks: "numChunksOf hourBuffer = 200"
  by (simp add: hourBuffer_def numChunksOf_def chunkTotalSamples_def CHUNK_SIZE_SECONDS_def)

lemma hour_ratio: "numberDivide 70 200 = 6305039478318694 / 2 ^ 54"
proof -
  have "roundToDouble (70 / 200) = real_of_int (roundTiesToEven (70 / 200 * 2 ^ 54)) / 2 ^ 54"
    by (rule double_scaled) simp_all
  moreover have "roundTiesToEven (70 / 200 * 2 ^ 54) = 6305039478318694"
    by (simp add: roundTiesToEven_def)
  ultimately show ?thesis unfolding numberDivide_def by (simp only: of_int_numeral)
qed

lemma hour_product: "numberTimes (6305039478318694 / 2 ^ 54) 90 = 8866461766385663 / 2 ^ 48"
proof -
  have "roundToDouble (6305039478318694 / 2 ^ 54 * 90) =
      real_of_int (roundTiesToEven (6305039478318694 / 2 ^ 54 * 90 * 2 ^ 48)) / 2 ^ 48"
    by (rule double_scaled) simp_all
  moreover have "roundTiesToEven (6305039478318694 / 2 ^ 54 * 90 * 2 ^ 48) = 8866461766385663"
    by (simp add: roundTiesToEven_def)
  ultimately show ?thesis unfolding numberTimes_def by (simp only: of_int_numeral)
qed

lemma hour_percent: "round (numberTimes (numberDivide 70 200) 90) = 31"
  unfolding hour_ratio hour_product by (simp add: round_def)

lemma demo_ratio: "numberDivide 10 12 = 7505999378950827 / 2 ^ 53"
proof -
  have "roundToDouble (10 / 12) = real_of_int (roundTiesToEven (10 / 12 * 2 ^ 53)) / 2 ^ 53"
    by (rule double_scaled) simp_all
  moreover have "roundTiesToEven (10 / 12 * 2 ^ 53) = 7505999378950827"
    by (simp add: roundTiesToEven_def)
  ultimately show ?thesis unfolding numberDivide_def by (simp only: of_int_numeral)
qed

lemma demo_product: "numberTimes (7505999378950827 / 2 ^ 53) 90 = 75"
proof -
  have "roundToDouble (7505999378950827 / 2 ^ 53 * 90) =
      real_of_int (roundTiesToEven (7505999378950827 / 2 ^ 53 * 90 * 2 ^ 46)) / 2 ^ 46"
    by (rule double_scaled) simp_all
  moreover have "roundTiesToEven (7505999378950827 / 2 ^ 53 * 90 * 2 ^ 46) = 75 * 2 ^ 46"
    by (simp add: roundTiesToEven_def)
  ultimately show ?thesis unfolding numberTimes_def by simp
qed

lemma demo_percent: "round (numberTimes (numberDivide 10 12) 90) = 75"
  unfolding demo_ratio demo_product by simp


section \<open>Helper lemmas: the live transcriber\<close>

lemma trim_empty_iff: "trim str = [] \<longleftrightarrow> whitespaceOnly str"
proof -
  have a: "trim str = [] \<longleftrightarrow> (\<forall>c \<in> set (dropWhile isWhiteSpace str). isWhiteSpace c)"
    unfolding trim_def rev_is_Nil_conv dropWhile_eq_Nil_conv set_rev ..
  have b: "(\<forall>c \<in> set (dropWhile isWhiteSpace str). isWhiteSpace c) \<longleftrightarrow>
           (\<forall>c \<in> set str. isWhiteSpace c)"
  proof
    assume all: "\<forall>c \<in> set (dropWhile isWhiteSpace str). isWhiteSpace c"
    have "dropWhile isWhiteSpace str = []"
    proof (rule ccontr)
      assume ne: "dropWhile isWhiteSpace str \<noteq> []"
      then have "\<not> isWhiteSpace (hd (dropWhile isWhiteSpace str))" by (rule hd_dropWhile)
      moreover have "hd (dropWhile isWhiteSpace str) \<in> set (dropWhile isWhiteSpace str)"
        using ne by (rule hd_in_set)
      ultimately show False using all by blast
    qed
    then show "\<forall>c \<in> set str. isWhiteSpace c" by (simp only: dropWhile_eq_Nil_conv)
  next
    assume "\<forall>c \<in> set str. isWhiteSpace c"
    then show "\<forall>c \<in> set (dropWhile isWhiteSpace str). isWhiteSpace c"
      by (meson set_dropWhileD)
  qed
  show ?thesis unfolding a b whitespaceOnly_def list_all_iff ..
qed

lemma elapsedTime_mono: "now \<le> now' \<Longrightarrow>
  recordingStartTimeRef s = Some start \<Longrightarrow> elapsedTime now s \<le> elapsedTime now' s"
  by (simp add: elapsedTime_def divide_right_mono)

lemma elapsedTime_None: "recordingStartTimeRef s = None \<Longrightarrow> elapsedTime now s = 0"
  by (simp add: elapsedTime_def)

lemma turnStamped_later:
  assumes "turnStamped now s" "now \<le> now'"
  shows "turnStamped now' s"
proof (cases "recordingStartTimeRef s")
  case None
  then show ?thesis
    using assms by (auto simp: turnStamped_def elapsedTime_None split: option.splits)
next
  case (Some start)
  then show ?thesis
    using assms elapsedTime_mono [OF assms(2) Some]
    by (auto simp: turnStamped_def split: option.splits)
qed

lemma releaseStream_eq:
  "releaseStream s =
     (if streamRef s = None then [] else [StopTracks], s\<lparr>streamRef := None\<rparr>)"
  by (cases "streamRef s") (simp_all add: releaseStream_def)

lemma releaseProcessor_eq:
  "releaseProcessor s =
     (if scriptProcessorRef s = None then [] else [DisconnectProcessor],
      s\<lparr>scriptProcessorRef := None\<rparr>)"
  by (cases "scriptProcessorRef s") (simp_all add: releaseProcessor_def)

lemma closeInputContext_eq:
  "closeInputContext s =
     (if audioContextRef s = None \<or> audioContextRef s = Some Closed then []
      else [CloseInputContext],
      s\<lparr>audioContextRef := (if audioContextRef s = Some Closed then Some Closed else None)\<rparr>)"
  by (cases "audioContextRef s") (simp_all add: closeInputContext_def)

lemma closeOutputContext_eq:
  "closeOutputContext s =
     (if outputAudioContextRef s = None \<or> outputAudioContextRef s = Some Closed then []
      else [CloseOutputContext],
      s\<lparr>outputAudioContextRef :=
          (if outputAudioContextRef s = Some Closed then Some Closed else None),
        outputGainNodeRef :=
          (if outputAudioContextRef s = None \<or> outputAudioContextRef s = Some Closed
           then outputGainNodeRef s else None)\<rparr>)"
  by (cases "outputAudioContextRef s") (simp_all add: closeOutputContext_def)

lemma closeSession_eq:
  "closeSession s =
     (case sessionPromiseRef s of
        None \<Rightarrow> []
      | Some (Connected closeThrows) \<Rightarrow>
          CloseSession # (if closeThrows then [LogCloseError] else [])
      | Some ConnectFailed \<Rightarrow> [LogCloseError],
      s\<lparr>sessionPromiseRef := None\<rparr>)"
  by (simp add: closeSession_def split: option.splits SessionPromise.splits)

lemma stopRecording_eq:
  "stopRecording now s =
     ((if streamRef s = None then [] else [StopTracks]) @
      (if scriptProcessorRef s = None then [] else [DisconnectProcessor]) @
      (if audioContextRef s = None \<or> audioContextRef s = Some Closed then []
       else [CloseInputContext]) @
      (if outputAudioContextRef s = None \<or> outputAudioContextRef s = Some Closed then []
       else [CloseOutputContext]) @
      (case sessionPromiseRef s of
         None \<Rightarrow> []
       | Some (Connected closeThrows) \<Rightarrow>
           CloseSession # (if closeThrows then [LogCloseError] else [])
       | Some ConnectFailed \<Rightarrow> [LogCloseError]),
      (released s)\<lparr>recordingStartTimeRef := None, currentTurn := None\<rparr>)"
  by (simp add: stopRecording_def releaseStream_eq releaseProcessor_eq closeInputContext_eq
      closeOutputContext_eq closeSession_eq released_def finalizeOnStop_def truthyNumber_def
      split: option.splits)

lemma released_fields:
  "currentTurn (released s) = currentTurn s"
  "transcript (released s) = transcript s"
  "recordingStartTimeRef (released s) = recordingStartTimeRef s"
  "error' (released s) = error' s"
  "isRecording (released s) = False"
  "streamRef (released s) = None"
  "scriptProcessorRef (released s) = None"
  "sessionPromiseRef (released s) = None"
  "audioContextRef (released s) =
     (if audioContextRef s = Some Closed then Some Closed else None)"
  "outputAudioContextRef (released s) =
     (if outputAudioContextRef s = Some Closed then Some Closed else None)"
  by (simp_all add: released_def)

lemma finalizeOnStop_fields:
  "currentTurn (finalizeOnStop now s) = None"
  "recordingStartTimeRef (finalizeOnStop now s) = recordingStartTimeRef s"
  "error' (finalizeOnStop now s) = error' s"
  "isRecording (finalizeOnStop now s) = isRecording s"
  "streamRef (finalizeOnStop now s) = streamRef s"
  "scriptProcessorRef (finalizeOnStop now s) = scriptProcessorRef s"
  "sessionPromiseRef (finalizeOnStop now s) = sessionPromiseRef s"
  "audioContextRef (finalizeOnStop now s) = audioContextRef s"
  "outputAudioContextRef (finalizeOnStop now s) = outputAudioContextRef s"
  "outputGainNodeRef (finalizeOnStop now s) = outputGainNodeRef s"
  by (simp_all add: finalizeOnStop_def split: option.splits)

lemma stop_fields:
  "currentTurn (snd (stopRecording now s)) = None"
  "recordingStartTimeRef (snd (stopRecording now s)) = None"
  "isRecording (snd (stopRecording now s)) = False"
  "streamRef (snd (stopRecording now s)) = None"
  "scriptProcessorRef (snd (stopRecording now s)) = None"
  "sessionPromiseRef (snd (stopRecording now s)) = None"
  "audioContextRef (snd (stopRecording now s)) =
     (if audioContextRef s = Some Closed then Some Closed else None)"
  "outputAudioContextRef (snd (stopRecording now s)) =
     (if outputAudioContextRef s = Some Closed then Some Closed else None)"
  "error' (snd (stopRecording now s)) = error' s"
  "transcript (snd (stopRecording now s)) = transcript s"
  by (simp_all add: stopRecording_eq released_fields)

lemma turnStamped_step:
  assumes inv: "turnStamped now s" and t: "now \<le> now'" "0 < now'"
  shows "turnStamped now' (liveStep (now', ev) s)"
proof -
  have later: "turnStamped now' s" using inv t(1) by (rule turnStamped_later)
  show ?thesis
  proof (cases ev)
    case Start
    then show ?thesis using t by (simp add: startRecording_def turnStamped_def)
  next
    case StreamAcquired
    then show ?thesis
      using later by (auto simp: turnStamped_def elapsedTime_def split: option.splits)
  next
    case (Connecting promise)
    then show ?thesis
      using later by (auto simp: turnStamped_def elapsedTime_def split: option.splits)
  next
    case Opened
    then show ?thesis
      using later by (auto simp: turnStamped_def elapsedTime_def split: option.splits)
  next
    case (StartFailed err)
    then show ?thesis
      using later
      by (auto simp: startFailed_def turnStamped_def elapsedTime_def split: option.splits)
  next
    case (Message message)
    have a: "turnStamped now' (onInputTranscription now' fragment s)" for fragment
      using later
      by (auto simp: onInputTranscription_def turnStamped_def elapsedTime_def
          split: option.splits)
    have b: "turnStamped now' (onTurnComplete now' s')" if "turnStamped now' s'" for s'
      using that
      by (auto simp: onTurnComplete_def turnStamped_def elapsedTime_def split: option.splits)
    show ?thesis
      unfolding Message liveStep.simps onmessage_def Let_def
      using a b later by (auto split: option.splits)
  next
    case (ChannelError message)
    then show ?thesis
      by (simp add: onerror_def turnStamped_def stop_fields)
  next
    case Stop
    then show ?thesis by (simp add: turnStamped_def stop_fields)
  next
    case Reset
    then show ?thesis
      using later
      by (auto simp: handleReset_def turnStamped_def elapsedTime_def split: option.splits)
  qed
qed

lemma turnStamped_foldl:
  assumes "turnStamped t0 s" "sorted (map fst events)"
    "list_all (\<lambda>ev. 0 < fst ev \<and> t0 \<le> fst ev) events"
  shows "turnStamped (last (t0 # map fst events)) (foldl (\<lambda>s ev. liveStep ev s) s events)"
  using assms
proof (induction events arbitrary: t0 s)
  case Nil
  then show ?case by simp
next
  case (Cons ev events)
  obtain now' e where ev: "ev = (now', e)" by (cases ev)
  have step: "turnStamped now' (liveStep (now', e) s)"
    using Cons.prems ev by (intro turnStamped_step [of t0]) simp_all
  have rest: "list_all (\<lambda>ev. 0 < fst ev \<and> now' \<le> fst ev) events"
    using Cons.prems ev by (auto simp: list_all_iff)
  have "sorted (map fst events)" using Cons.prems by simp
  from Cons.IH [OF step this rest] show ?case using ev by simp
qed

lemma turnStamped_run:
  assumes "timedRun events now"
  shows "turnStamped now (runLive events)"
proof -
  have init: "turnStamped 0 initialLive" by (simp add: turnStamped_def initialLive_def)
  have "list_all (\<lambda>ev. 0 < fst ev \<and> 0 \<le> fst ev) events"
    using assms by (auto simp: timedRun_def list_all_iff)
  with assms have "turnStamped (last (0 # map fst events)) (runLive events)"
    unfolding runLive_def timedRun_def by (intro turnStamped_foldl [OF init]) simp_all
  moreover have "last (0 # map fst events) \<le> now"
    using assms by (cases events rule: rev_cases) (auto simp: timedRun_def)
  ultimately show ?thesis by (rule turnStamped_later)
qed


lemma onTurnComplete_fields:
  "currentTurn (onTurnComplete now s) = None"
  "currentTurn s = None \<Longrightarrow> transcript (onTurnComplete now s) = transcript s"
  "currentTurn s = Some t \<Longrightarrow> whitespaceOnly (text t) \<Longrightarrow>
     transcript (onTurnComplete now s) = transcript s"
  "currentTurn s = Some t \<Longrightarrow> \<not> whitespaceOnly (text t) \<Longrightarrow>
     transcript (onTurnComplete now s) =
       transcript s @ [\<lparr>startTime = startTime t, text = text t, endTime = elapsedTime now s\<rparr>]"
  by (simp_all add: onTurnComplete_def withEndTime_def trim_empty_iff split: option.splits)


subsection \<open>The sample session\<close>

lemma demo_live:
  "runLive demoEvents =
     \<lparr>isRecording = True, transcript = [],
      currentTurn = Some \<lparr>startTime = 1 / 2, text = ''Hello world''\<rparr>, error' = None,
      sessionPromiseRef = Some (Connected False), streamRef = Some (),
      audioContextRef = Some Running, outputAudioContextRef = Some Running,
      outputGainNodeRef = Some (), scriptProcessorRef = Some (),
      recordingStartTimeRef = Some 1000\<rparr>"
  by (simp add: runLive_def demoEvents_def initialLive_def startRecording_def onmessage_def
      onInputTranscription_def elapsedTime_def)

lemma demo_blank_live:
  "runLive demoBlankEvents =
     \<lparr>isRecording = True, transcript = [],
      currentTurn = Some \<lparr>startTime = 1 / 2, text = ''  ''\<rparr>, error' = None,
      sessionPromiseRef = None, streamRef = None,
      audioContextRef = None, outputAudioContextRef = None,
      outputGainNodeRef = None, scriptProcessorRef = None,
      recordingStartTimeRef = Some 1000\<rparr>"
  by (simp add: runLive_def demoBlankEvents_def initialLive_def startRecording_def onmessage_def
      onInputTranscription_def elapsedTime_def)

lemma demo_timed: "timedRun demoEvents 3500" "timedRun demoBlankEvents 3500"
  by (simp_all add: timedRun_def demoEvents_def demoBlankEvents_def)

lemma demo_texts: "\<not> whitespaceOnly ''Hello world''" "whitespaceOnly ''  ''"
  by (simp_all add: whitespaceOnly_def isWhiteSpace_def)

section \<open>The claims\<close>

text \<open>
  Claim C10. The batch transcription client never propagates an exception: whatever the
  collaborator does, \<open>transcribeAudio\<close> returns a string. When the collaborator throws an
  Error the string is the marker text followed by the Error's message, when it throws
  anything else it is the fixed unknown-error text, and both begin with "Error:". On
  success it is the response text, or the empty string when the response has none.
  The chunk callback therefore fails exactly when that string begins with "Error:", so a
  genuine transcript beginning with "Error:" is handled as a segment failure.
\<close>

theorem transcribeAudio_total_error_channel:
  "(\<exists>s. transcribeAudio outcome = Inr s)
   \<and> (\<forall>m. outcome = Throws (ErrorInstance m) \<longrightarrow>
          transcribeAudio outcome = Inr (''Error: API call failed - '' @ m))
   \<and> (outcome = Throws NonError \<longrightarrow>
          transcribeAudio outcome = Inr ''Error: An unknown error occurred during transcription.'')
   \<and> (\<forall>e. outcome = Throws e \<longrightarrow>
          (\<exists>s. transcribeAudio outcome = Inr s \<and> startsWith s ''Error:''))
   \<and> (\<forall>t. outcome = Responds (Some t) \<longrightarrow> transcribeAudio outcome = Inr t)
   \<and> (outcome = Responds None \<longrightarrow> transcribeAudio outcome = Inr '''')
   \<and> (\<forall>audioBuffer api i.
          (\<exists>e. chunkTask audioBuffer api i = Inl e) \<longleftrightarrow>
          (\<exists>s. transcribeAudio (api i) = Inr s \<and> startsWith s ''Error:''))
   \<and> (\<forall>audioBuffer api i t. api i = Responds (Some t) \<and> startsWith t ''Error:'' \<longrightarrow>
          chunkTask audioBuffer api i = Inl (ErrorInstance t))"
proof (intro conjI allI impI)
  show "\<exists>s. transcribeAudio outcome = Inr s" by (rule transcribeAudio_returns)
next
  fix e assume "outcome = Throws e"
  then show "\<exists>s. transcribeAudio outcome = Inr s \<and> startsWith s ''Error:''"
    using transcribeAudio_thrown_marker by simp
next
  fix audioBuffer :: AudioBuffer and api :: "nat \<Rightarrow> ApiOutcome" and i
  show "(\<exists>e. chunkTask audioBuffer api i = Inl e) \<longleftrightarrow>
        (\<exists>s. transcribeAudio (api i) = Inr s \<and> startsWith s ''Error:'')"
    by (rule chunkTask_rejects_iff)
next
  fix audioBuffer :: AudioBuffer and api :: "nat \<Rightarrow> ApiOutcome" and i t
  assume "api i = Responds (Some t) \<and> startsWith t ''Error:''"
  then show "chunkTask audioBuffer api i = Inl (ErrorInstance t)"
    by (simp add: chunkTask_def transcribeAudio_cases)
qed (simp_all add: transcribeAudio_cases)

theorem transcribeAudio_total_error_channel_witness:
  "transcribeAudio (Throws (ErrorInstance ''quota exceeded'')) =
     Inr ''Error: API call failed - quota exceeded''
   \<and> chunkTask \<lparr>sampleRate = 44100, numberOfChannels = 1, length' = 441000\<rparr>
        (\<lambda>i. Responds (Some ''Error: no such file, the clerk said.'')) 0 =
     Inl (ErrorInstance ''Error: no such file, the clerk said.'')"
proof -
  have marker: "startsWith ''Error: no such file, the clerk said.'' ''Error:''"
    by (simp add: startsWith_def)
  show ?thesis
    using transcribeAudio_total_error_channel [of "Throws (ErrorInstance ''quota exceeded'')"]
      marker
    by simp
qed

text \<open>
  Claim C1. Chunk planning coverage. For an audio source with a positive sample rate and
  duration D = totalSamples / sampleRate, the number of segments is
  ceil(totalSamples / (20 * sampleRate)); segment i spans [20 i, min(20 (i + 1), D));
  each segment is non-empty, each ends where the next begins, every instant of [0, D)
  lies in exactly one segment, the first starts at 0 and the last ends at D exactly
  (also when D is not a multiple of 20); there is no segment exactly when D = 0.
  A chunk callback that succeeds stamps its turn with these bounds.
\<close>

theorem chunk_planning_coverage:
  assumes "0 < sampleRate ab"
  shows "numChunksOf ab = nat \<lceil>real (length' ab) / (20 * sampleRate ab)\<rceil>
    \<and> (\<forall>i < numChunksOf ab.
          chunkStartTime i = real i * 20 \<and>
          chunkEndTime ab i = min (real (i + 1) * 20) (duration ab) \<and>
          chunkStartTime i < chunkEndTime ab i)
    \<and> (\<forall>i. Suc i < numChunksOf ab \<longrightarrow> chunkEndTime ab i = chunkStartTime (Suc i))
    \<and> (\<forall>t. 0 \<le> t \<and> t < duration ab \<longrightarrow>
          (\<exists>!i. i < numChunksOf ab \<and> chunkStartTime i \<le> t \<and> t < chunkEndTime ab i))
    \<and> (0 < numChunksOf ab \<longrightarrow>
          chunkStartTime 0 = 0 \<and> chunkEndTime ab (numChunksOf ab - 1) = duration ab)
    \<and> (numChunksOf ab = 0 \<longleftrightarrow> duration ab = 0)
    \<and> (\<forall>api i r. chunkTask ab api i = Inr r \<longrightarrow>
          index r = i \<and> startTime (turn r) = chunkStartTime i \<and>
          endTime (turn r) = chunkEndTime ab i)"
proof (intro conjI allI impI)
  show "numChunksOf ab = nat \<lceil>real (length' ab) / (20 * sampleRate ab)\<rceil>"
    by (simp add: numChunksOf_def chunkTotalSamples_def CHUNK_SIZE_SECONDS_def)
next
  fix i show "chunkStartTime i = real i * 20" by (rule chunk_times)
next
  fix i show "chunkEndTime ab i = min (real (i + 1) * 20) (duration ab)"
    by (rule chunk_times)
next
  fix i assume "i < numChunksOf ab"
  then show "chunkStartTime i < chunkEndTime ab i" by (rule chunk_nonempty [OF assms])
next
  fix i assume "Suc i < numChunksOf ab"
  then show "chunkEndTime ab i = chunkStartTime (Suc i)"
    by (rule chunk_contiguous [OF assms])
next
  fix t assume "0 \<le> t \<and> t < duration ab"
  then show "\<exists>!i. i < numChunksOf ab \<and> chunkStartTime i \<le> t \<and> t < chunkEndTime ab i"
    using chunk_of_instant [OF assms] by blast
next
  assume "0 < numChunksOf ab"
  then show "chunkStartTime 0 = 0" by (simp add: chunk_times)
next
  assume "0 < numChunksOf ab"
  then show "chunkEndTime ab (numChunksOf ab - 1) = duration ab"
    by (rule last_chunk_end [OF assms])
next
  have "0 < numChunksOf ab \<longleftrightarrow> 0 < duration ab"
    using below_numChunks_iff [OF assms, of 0] by simp
  then have "numChunksOf ab = 0 \<longleftrightarrow> \<not> 0 < duration ab" by auto
  then show "numChunksOf ab = 0 \<longleftrightarrow> duration ab = 0"
    using duration_nonneg [OF assms] by simp
next
  fix api :: "nat \<Rightarrow> ApiOutcome" and i r
  assume r: "chunkTask ab api i = Inr r"
  then show "index r = i" "startTime (turn r) = chunkStartTime i"
    "endTime (turn r) = chunkEndTime ab i"
    by (auto simp: chunkTask_def split: sum.splits if_splits)
qed

theorem chunk_planning_coverage_witness:
  "0 < sampleRate \<lparr>sampleRate = 44100, numberOfChannels = 2, length' = 2072700\<rparr>
   \<and> numChunksOf \<lparr>sampleRate = 44100, numberOfChannels = 2, length' = 2072700\<rparr> = 3
   \<and> duration \<lparr>sampleRate = 44100, numberOfChannels = 2, length' = 2072700\<rparr> = 47
   \<and> chunkEndTime \<lparr>sampleRate = 44100, numberOfChannels = 2, length' = 2072700\<rparr> 1
       = chunkStartTime 2
   \<and> chunkEndTime \<lparr>sampleRate = 44100, numberOfChannels = 2, length' = 2072700\<rparr> 2 = 47"
proof -
  let ?ab = "\<lparr>sampleRate = 44100, numberOfChannels = 2, length' = 2072700\<rparr>"
  have sr: "0 < sampleRate ?ab" by simp
  have n: "numChunksOf ?ab = 3"
    by (simp add: numChunksOf_def chunkTotalSamples_def CHUNK_SIZE_SECONDS_def)
  have d: "duration ?ab = 47" by (simp add: duration_def)
  from chunk_planning_coverage [OF sr]
  have "(\<forall>i. Suc i < numChunksOf ?ab \<longrightarrow> chunkEndTime ?ab i = chunkStartTime (Suc i))"
    and "(0 < numChunksOf ?ab \<longrightarrow>
          chunkStartTime 0 = 0 \<and> chunkEndTime ?ab (numChunksOf ?ab - 1) = duration ?ab)"
    by blast+
  then have "chunkEndTime ?ab 1 = chunkStartTime (Suc 1)" and "chunkEndTime ?ab 2 = 47"
    using n d by (simp_all del: One_nat_def)
  then show ?thesis using sr n d by (simp add: numeral_2_eq_2)
qed


text \<open>
  Claim C3. Wave barrier. The N segments of a job are partitioned into ceil(N / 10) waves
  of at most 10 (and at least one) items, and the job issues its requests wave by wave, in
  that order, all N of them when it ends Done. At every point of the job's trace at most 10
  requests are outstanding. A request of a wave is issued only after every request of
  every earlier wave has settled, by success or by failure.
\<close>

theorem wave_barrier:
  assumes "0 < sampleRate ab"
  shows "length (waves (numChunksOf ab)) = nat \<lceil>real (numChunksOf ab) / real CONCURRENCY_LIMIT\<rceil>
    \<and> concat (waves (numChunksOf ab)) = [0 ..< numChunksOf ab]
    \<and> (\<forall>wave \<in> set (waves (numChunksOf ab)). wave \<noteq> [] \<and> length wave \<le> CONCURRENCY_LIMIT)
    \<and> (\<exists>m \<le> length (waves (numChunksOf ab)).
          issuedOf (processFile (Some queued) (Inr ab) api lat) =
            concat (take m (waves (numChunksOf ab))))
    \<and> (status (last (publishedOf (processFile (Some queued) (Inr ab) api lat))) = DONE \<longrightarrow>
          issuedOf (processFile (Some queued) (Inr ab) api lat) = [0 ..< numChunksOf ab])
    \<and> (\<forall>p. prefix p (processFile (Some queued) (Inr ab) api lat) \<longrightarrow>
          card (outstandingAfter {} p) \<le> CONCURRENCY_LIMIT)
    \<and> (\<forall>p j j' w w'.
          prefix (p @ [Issued j]) (processFile (Some queued) (Inr ab) api lat) \<and>
          w' < w \<and> w < length (waves (numChunksOf ab)) \<and>
          j \<in> set (waves (numChunksOf ab) ! w) \<and> j' \<in> set (waves (numChunksOf ab) ! w') \<longrightarrow>
          Settled j' \<in> set p)"
proof -
  let ?N = "numChunksOf ab"
  let ?job1 = "queued\<lparr>status := PROCESSING, progress := 5\<rparr>"
  let ?job2 = "queued\<lparr>status := PROCESSING, progress := 5, status := TRANSCRIBING\<rparr>"
  obtain evs jobF res where run: "loopFrom ab api lat ?N 0 ?job2 = (evs, jobF, res)"
    and trace: "processFile (Some queued) (Inr ab) api lat =
       Published ?job1 # Published ?job2 # evs @
       [Published (case res of
           Inl e \<Rightarrow> catchHandler e jobF
         | Inr slots \<Rightarrow> jobF\<lparr>status := DONE, progress := 100,
                              transcription := sortedTurns slots\<rparr>)]"
    by (rule processFile_run)
  let ?final = "case res of
           Inl e \<Rightarrow> catchHandler e jobF
         | Inr slots \<Rightarrow> jobF\<lparr>status := DONE, progress := 100,
                              transcription := sortedTurns slots\<rparr>"
  have iss: "issuedOf (processFile (Some queued) (Inr ab) api lat) = issuedOf evs"
    unfolding trace by (simp add: issuedOf_simps)
  have a: "\<exists>m \<le> length (waves ?N). issuedOf (processFile (Some queued) (Inr ab) api lat) =
            concat (take m (waves ?N))"
  proof -
    from loop_issued [OF run] obtain m where
      "issuedOf evs = [0 ..< min (CONCURRENCY_LIMIT * m) ?N]" by auto
    then have "issuedOf evs = concat (take m (waves ?N))"
      by (simp only: concat_take_waves)
    then have "issuedOf evs = concat (take (min m (length (waves ?N))) (waves ?N))"
      by (simp add: min_def)
    then show ?thesis unfolding iss
      by (intro exI [of _ "min m (length (waves ?N))"]) simp
  qed
  have b: "issuedOf (processFile (Some queued) (Inr ab) api lat) = [0 ..< ?N]"
    if "status (last (publishedOf (processFile (Some queued) (Inr ab) api lat))) = DONE"
  proof -
    have "last (publishedOf (processFile (Some queued) (Inr ab) api lat)) = ?final"
      unfolding trace by (simp add: publishedOf_simps)
    with that have "status ?final = DONE" by simp
    then obtain slots where "res = Inr slots"
      by (cases res) (simp_all add: catchHandler_def)
    with loop_issued [OF run] show ?thesis unfolding iss by simp
  qed
  have c: "card (outstandingAfter {} p) \<le> CONCURRENCY_LIMIT"
    if "prefix p (processFile (Some queued) (Inr ab) api lat)" for p
    using that unfolding trace by (rule outstanding_trace [OF run])
  have d: "Settled j' \<in> set p"
    if p: "prefix (p @ [Issued j]) (processFile (Some queued) (Inr ab) api lat)"
      and w: "w' < w" "w < length (waves ?N)"
      and j: "j \<in> set (waves ?N ! w)" and j': "j' \<in> set (waves ?N ! w')"
    for p j j' w w'
  proof -
    have w': "w' < length (waves ?N)" using w by simp
    have jw: "j div CONCURRENCY_LIMIT = w" using waves_member [OF w(2)] j by blast
    have jw': "j' div CONCURRENCY_LIMIT = w'" using waves_member [OF w'] j' by blast
    from p [unfolded trace] obtain q where q: "p = Published ?job1 # Published ?job2 # q"
      "prefix (q @ [Issued j]) evs"
      by (rule prefix_trace_cases) simp_all
    have "Settled j' \<in> set q"
      using loop_barrier [OF run _ q(2), of j'] jw jw' w(1) by simp
    then show ?thesis using q(1) by simp
  qed
  show ?thesis
    using length_waves_ceiling [of ?N] concat_waves [of ?N] waves_bounded [of _ ?N] a b c d
    by (intro conjI) blast+
qed


theorem wave_barrier_witness:
  "0 < sampleRate demoBuffer
   \<and> prefix
       ((Published ((newFile ''a.wav'')\<lparr>status := PROCESSING, progress := 5\<rparr>) #
         Published demoJob #
         map Issued [0 ..< 10] @ map Settled (sort_key demoLatency [0 ..< 10]) @
         [Published (waveJob demoBuffer demoApi 12 10 demoJob)]) @ [Issued 10])
       (processFile (Some (newFile ''a.wav'')) (Inr demoBuffer) demoApi demoLatency)
   \<and> 10 \<in> set (waves (numChunksOf demoBuffer) ! 1)
   \<and> 3 \<in> set (waves (numChunksOf demoBuffer) ! 0)
   \<and> Settled 3 \<in> set
       (Published ((newFile ''a.wav'')\<lparr>status := PROCESSING, progress := 5\<rparr>) #
         Published demoJob #
         map Issued [0 ..< 10] @ map Settled (sort_key demoLatency [0 ..< 10]) @
         [Published (waveJob demoBuffer demoApi 12 10 demoJob)])
   \<and> card (outstandingAfter {}
       (Published ((newFile ''a.wav'')\<lparr>status := PROCESSING, progress := 5\<rparr>) #
         Published demoJob #
         map Issued [0 ..< 10] @ map Settled (sort_key demoLatency [0 ..< 10]) @
         [Published (waveJob demoBuffer demoApi 12 10 demoJob)])) \<le> CONCURRENCY_LIMIT"
proof -
  let ?t = "processFile (Some (newFile ''a.wav'')) (Inr demoBuffer) demoApi demoLatency"
  let ?p = "Published ((newFile ''a.wav'')\<lparr>status := PROCESSING, progress := 5\<rparr>) #
         Published demoJob #
         map Issued [0 ..< 10] @ map Settled (sort_key demoLatency [0 ..< 10]) @
         [Published (waveJob demoBuffer demoApi 12 10 demoJob)]"
  have split: "[10 ..< 12] = [10, 11::nat]" by (simp add: upt_rec)
  have pre: "prefix (?p @ [Issued 10]) ?t"
    unfolding demo_trace split by (simp add: prefix_def)
  then have pre': "prefix ?p ?t" by (rule append_prefixD)
  have len: "(0::nat) < 1" "1 < length (waves (numChunksOf demoBuffer))"
    by (simp_all add: length_waves demo_numChunks)
  have j: "10 \<in> set (waves (numChunksOf demoBuffer) ! 1)"
    using waves_member [OF len(2), of 10] by (simp add: demo_numChunks CONCURRENCY_LIMIT_def)
  have len0: "0 < length (waves (numChunksOf demoBuffer))"
    by (simp add: length_waves demo_numChunks)
  have j': "3 \<in> set (waves (numChunksOf demoBuffer) ! 0)"
    using waves_member [OF len0, of 3] by (simp add: demo_numChunks CONCURRENCY_LIMIT_def)
  note claim = wave_barrier [OF demo_sampleRate, where queued = "newFile ''a.wav''"
      and api = demoApi and lat = demoLatency]
  from claim have "Settled 3 \<in> set ?p"
    using pre len j j' by blast
  moreover from claim have "card (outstandingAfter {} ?p) \<le> CONCURRENCY_LIMIT"
    using pre' by blast
  ultimately show ?thesis using demo_sampleRate pre j j' by (intro conjI)
qed


text \<open>
  Claim C2. Order restoration and idempotence of aggregation. Whatever the order in
  which the requests of a wave complete, every transcript that the job publishes (while
  Transcribing and when Done) is exactly the list of the results of the segments settled so
  far, sorted by startTime ascending: it is sorted, it holds each of these results once,
  and each of them is a defined (successful) result. It equals the results in segment
  order. Each publication re-aggregates a superset of the results of the one before, and
  the transcripts published by a job form a chain of prefixes: every turn placed keeps
  its position in all later transcripts. On any array of slots the aggregation returns
  the defined slots, sorted by startTime.
\<close>

theorem order_restoration:
  assumes sr: "0 < sampleRate ab"
  shows "(\<forall>p job.
            prefix (p @ [Published job])
              (processFile (Some (newFile name)) (Inr ab) api lat) \<and>
            status job \<noteq> ERROR \<longrightarrow>
              transcription job = sort_key startTime (map (chunkTurn ab api) (settledOf p))
            \<and> transcription job = map (chunkTurn ab api) [0 ..< length (settledOf p)]
            \<and> sorted (map startTime (transcription job))
            \<and> (\<forall>k \<in> set (settledOf p).
                  chunkTask ab api k = Inr \<lparr>turn = chunkTurn ab api k, index = k\<rparr>))
     \<and> sorted_wrt prefix
           (map transcription
              (publishedOf (processFile (Some (newFile name)) (Inr ab) api lat)))
     \<and> (\<forall>slots. sorted (map startTime (sortedTurns slots)) \<and>
                  mset (sortedTurns slots) = mset (filterBoolean slots))"
proof -
  let ?N = "numChunksOf ab"
  let ?T = "chunkTurn ab api"
  let ?job1 = "(newFile name)\<lparr>status := PROCESSING, progress := 5\<rparr>"
  let ?job2 = "(newFile name)\<lparr>status := PROCESSING, progress := 5, status := TRANSCRIBING\<rparr>"
  obtain evs jobF res where run: "loopFrom ab api lat ?N 0 ?job2 = (evs, jobF, res)"
    and trace: "processFile (Some (newFile name)) (Inr ab) api lat =
       Published ?job1 # Published ?job2 # evs @
       [Published (case res of
           Inl e \<Rightarrow> catchHandler e jobF
         | Inr slots \<Rightarrow> jobF\<lparr>status := DONE, progress := 100,
                              transcription := sortedTurns slots\<rparr>)]"
    by (rule processFile_run)
  let ?final = "case res of
           Inl e \<Rightarrow> catchHandler e jobF
         | Inr slots \<Rightarrow> jobF\<lparr>status := DONE, progress := 100,
                              transcription := sortedTurns slots\<rparr>"
  have sortedT: "sorted (map startTime (map ?T [0 ..< c]))" for c
    using sorted_startTimes_upt [of 0 c] by (simp add: comp_def startTime_chunkTurn)
  have known: "transcription job = sort_key startTime (map ?T ks)
            \<and> transcription job = map ?T [0 ..< length ks]
            \<and> sorted (map startTime (transcription job))
            \<and> (\<forall>k \<in> set ks. chunkTask ab api k = Inr \<lparr>turn = ?T k, index = k\<rparr>)"
    if tr: "transcription job = map ?T [0 ..< length ks]"
      and perm: "mset ks = mset [0 ..< length ks]"
      and oks: "\<And>k. k \<in> set ks \<Longrightarrow> \<exists>r. chunkTask ab api k = Inr r"
    for job ks
  proof (intro conjI ballI)
    show "transcription job = sort_key startTime (map ?T ks)"
      unfolding sort_chunkTurns [OF perm] by (rule tr)
    show "transcription job = map ?T [0 ..< length ks]" by (rule tr)
    show "sorted (map startTime (transcription job))"
      unfolding tr by (rule sortedT)
    fix k assume "k \<in> set ks"
    then obtain r where r: "chunkTask ab api k = Inr r" using oks by blast
    then show "chunkTask ab api k = Inr \<lparr>turn = ?T k, index = k\<rparr>"
      using chunkTask_ok [OF r] by simp
  qed
  have first: "transcription job = sort_key startTime (map ?T (settledOf p))
            \<and> transcription job = map ?T [0 ..< length (settledOf p)]
            \<and> sorted (map startTime (transcription job))
            \<and> (\<forall>k \<in> set (settledOf p). chunkTask ab api k = Inr \<lparr>turn = ?T k, index = k\<rparr>)"
    if pre: "prefix (p @ [Published job]) (processFile (Some (newFile name)) (Inr ab) api lat)"
      and st: "status job \<noteq> ERROR" for p job
    using pre [unfolded trace]
  proof (cases rule: prefix_trace_cases)
    case 1
    then show ?thesis by (simp add: settledOf_simps newFile_def)
  next
    case 2
    then show ?thesis by (simp add: settledOf_simps newFile_def)
  next
    case (3 q)
    have sp: "settledOf p = settledOf q" using 3(1) by (simp add: settledOf_simps)
    from loop_published [OF run 3(2)]
    have "job = waveJob ab api ?N (length (settledOf q)) ?job2"
      and ms: "mset (settledOf q) = mset [0 ..< length (settledOf q)]"
      by simp_all
    then have "transcription job = map ?T [0 ..< length (settledOf q)]"
      by (simp add: waveJob_fields)
    then show ?thesis
      unfolding sp using ms loop_settled_ok(1) [OF run 3(2)] by (intro known)
  next
    case 4
    from 4(2) st obtain slots where res: "res = Inr slots"
      by (cases res) (simp_all add: catchHandler_def)
    have sp: "settledOf p = settledOf evs" using 4(1) by (simp add: settledOf_simps)
    from loop_issued [OF run] res
    have ms: "mset (settledOf evs) = mset [0 ..< ?N]"
      and slots: "slots = slotsUpTo ab api ?N ?N" by simp_all
    have "size (mset (settledOf evs)) = size (mset [0 ..< ?N])" by (simp only: ms)
    then have len: "length (settledOf evs) = ?N" by simp
    have "transcription job = map ?T [0 ..< ?N]"
      using 4(2) res slots by (simp add: sortedTurns_slotsUpTo)
    then show ?thesis
      unfolding sp using ms loop_settled_ok(2) [OF run res] len by (intro known) simp_all
  qed
  let ?pubs = "publishedOf evs"
  from loop_published_chain [OF run]
  have chain: "sorted_wrt prefix (map transcription ?pubs)"
    and wave: "\<forall>j \<in> set ?pubs. \<exists>c. c \<le> ?N \<and> j = waveJob ab api ?N c ?job2"
    by auto
  have below: "prefix (transcription j) (transcription ?final)" if j: "j \<in> set ?pubs" for j
  proof (cases res)
    case (Inl e)
    have "jobF = last ?pubs" using loop_final_job [OF run] j by auto
    then have "transcription ?final = transcription (last ?pubs)"
      using Inl by (simp add: catchHandler_def)
    moreover have "prefix (transcription j) (last (map transcription ?pubs))"
    proof (rule sorted_wrt_last [where P = prefix, OF chain])
      show "prefix x x" for x :: "TranscriptionTurn list" by simp
      show "transcription j \<in> set (map transcription ?pubs)" using j by simp
    qed
    moreover have "last (map transcription ?pubs) = transcription (last ?pubs)"
      using j by (intro last_map) auto
    ultimately show ?thesis by simp
  next
    case (Inr slots)
    with loop_issued [OF run] have "slots = slotsUpTo ab api ?N ?N" by simp
    then have "transcription ?final = map ?T [0 ..< ?N]"
      using Inr by (simp add: sortedTurns_slotsUpTo)
    moreover from wave j obtain c where "c \<le> ?N" "j = waveJob ab api ?N c ?job2" by blast
    ultimately show ?thesis using prefix_chunkTurns by (simp add: waveJob_fields)
  qed
  have "sorted_wrt prefix (map transcription (?job1 # ?job2 # ?pubs @ [?final]))"
    using chain below by (simp add: sorted_wrt_append newFile_def)
  moreover have "publishedOf (processFile (Some (newFile name)) (Inr ab) api lat) =
      ?job1 # ?job2 # ?pubs @ [?final]"
    unfolding trace by (simp add: publishedOf_simps)
  ultimately have second: "sorted_wrt prefix
           (map transcription
              (publishedOf (processFile (Some (newFile name)) (Inr ab) api lat)))"
    by (simp only:)
  have "\<forall>p job.
            prefix (p @ [Published job])
              (processFile (Some (newFile name)) (Inr ab) api lat) \<and>
            status job \<noteq> ERROR \<longrightarrow>
              transcription job = sort_key startTime (map ?T (settledOf p))
            \<and> transcription job = map ?T [0 ..< length (settledOf p)]
            \<and> sorted (map startTime (transcription job))
            \<and> (\<forall>k \<in> set (settledOf p).
                  chunkTask ab api k = Inr \<lparr>turn = ?T k, index = k\<rparr>)"
  proof (intro allI impI)
    fix p job
    assume "prefix (p @ [Published job])
              (processFile (Some (newFile name)) (Inr ab) api lat) \<and>
            status job \<noteq> ERROR"
    then have "prefix (p @ [Published job])
              (processFile (Some (newFile name)) (Inr ab) api lat)" "status job \<noteq> ERROR"
      by simp_all
    then show "transcription job = sort_key startTime (map ?T (settledOf p))
            \<and> transcription job = map ?T [0 ..< length (settledOf p)]
            \<and> sorted (map startTime (transcription job))
            \<and> (\<forall>k \<in> set (settledOf p).
                  chunkTask ab api k = Inr \<lparr>turn = ?T k, index = k\<rparr>)"
      by (rule first)
  qed
  moreover have "\<forall>slots. sorted (map startTime (sortedTurns slots)) \<and>
                  mset (sortedTurns slots) = mset (filterBoolean slots)"
    by (simp add: sortedTurns_def)
  ultimately show ?thesis using second by (intro conjI)
qed


theorem order_restoration_witness:
  "0 < sampleRate demoBuffer
   \<and> prefix
       ((Published ((newFile ''a.wav'')\<lparr>status := PROCESSING, progress := 5\<rparr>) #
         Published demoJob #
         map Issued [0 ..< 10] @ map Settled (sort_key demoLatency [0 ..< 10])) @
        [Published (waveJob demoBuffer demoApi 12 10 demoJob)])
       (processFile (Some (newFile ''a.wav'')) (Inr demoBuffer) demoApi demoLatency)
   \<and> status (waveJob demoBuffer demoApi 12 10 demoJob) \<noteq> ERROR
   \<and> transcription (waveJob demoBuffer demoApi 12 10 demoJob) =
       sort_key startTime (map (chunkTurn demoBuffer demoApi) [9, 8, 7, 6, 5, 4, 3, 2, 1, 0])
   \<and> sorted_wrt prefix (map transcription
        (publishedOf (processFile (Some (newFile ''a.wav'')) (Inr demoBuffer) demoApi
           demoLatency)))"
proof -
  note claim = order_restoration [OF demo_sampleRate, where name = "''a.wav''"
      and api = demoApi and lat = demoLatency]
  have st: "status (waveJob demoBuffer demoApi 12 10 demoJob) \<noteq> ERROR"
    by (simp add: waveJob_fields demo_status)
  from conjunct1 [OF claim] demo_wave1_prefix [of demoLatency] st
  have "transcription (waveJob demoBuffer demoApi 12 10 demoJob) =
       sort_key startTime (map (chunkTurn demoBuffer demoApi)
         (settledOf (Published ((newFile ''a.wav'')\<lparr>status := PROCESSING, progress := 5\<rparr>) #
           Published demoJob #
           map Issued [0 ..< 10] @ map Settled (sort_key demoLatency [0 ..< 10]))))"
    by blast
  then have "transcription (waveJob demoBuffer demoApi 12 10 demoJob) =
       sort_key startTime (map (chunkTurn demoBuffer demoApi) [9, 8, 7, 6, 5, 4, 3, 2, 1, 0])"
    by (simp only: demo_wave1_settled)
  then show ?thesis
    using demo_sampleRate demo_wave1_prefix [of demoLatency] st
      conjunct1 [OF conjunct2 [OF claim]]
    by (intro conjI)
qed


text \<open>
  Claim C4, as amended. Fail-fast with partial-work preservation. If segment j is
  attempted and its transcription fails, the job's last update puts it in Error with
  progress 0. The stored error message is the description of the first failure to settle
  in j's wave: a response string that begins with the error marker; it is the
  description of j's own failure when j is the only failing segment of its wave. No segment
  of a later wave is attempted. The transcript field holds the turns of all segments of the
  strictly earlier waves, all of which succeeded.
\<close>

theorem fail_fast:
  assumes sr: "0 < sampleRate ab"
    and issued: "Issued j \<in> set (processFile (Some (newFile name)) (Inr ab) api lat)"
    and fails: "chunkTask ab api j = Inl e"
  shows "last (processFile (Some (newFile name)) (Inr ab) api lat) =
           Published (last (publishedOf (processFile (Some (newFile name)) (Inr ab) api lat)))
     \<and> status (last (publishedOf (processFile (Some (newFile name)) (Inr ab) api lat))) = ERROR
     \<and> progress (last (publishedOf (processFile (Some (newFile name)) (Inr ab) api lat))) = 0
     \<and> (\<exists>pre k post s.
           sort_key lat (waves (numChunksOf ab) ! (j div CONCURRENCY_LIMIT)) = pre @ k # post \<and>
           (\<forall>c \<in> set pre. \<exists>r. chunkTask ab api c = Inr r) \<and>
           chunkTask ab api k = Inl (ErrorInstance s) \<and>
           transcribeAudio (api k) = Inr s \<and> startsWith s ''Error:'' \<and>
           error (last (publishedOf (processFile (Some (newFile name)) (Inr ab) api lat)))
             = Some s)
     \<and> ((\<forall>k \<in> set (waves (numChunksOf ab) ! (j div CONCURRENCY_LIMIT)).
            (\<exists>e'. chunkTask ab api k = Inl e') \<longrightarrow> k = j) \<longrightarrow>
          (\<exists>s. e = ErrorInstance s \<and>
             error (last (publishedOf (processFile (Some (newFile name)) (Inr ab) api lat)))
               = Some s))
     \<and> (\<forall>j'. Issued j' \<in> set (processFile (Some (newFile name)) (Inr ab) api lat) \<longrightarrow>
            j' div CONCURRENCY_LIMIT \<le> j div CONCURRENCY_LIMIT)
     \<and> transcription (last (publishedOf (processFile (Some (newFile name)) (Inr ab) api lat)))
           = map (chunkTurn ab api) [0 ..< CONCURRENCY_LIMIT * (j div CONCURRENCY_LIMIT)]
     \<and> (\<forall>k < CONCURRENCY_LIMIT * (j div CONCURRENCY_LIMIT).
            chunkTask ab api k = Inr \<lparr>turn = chunkTurn ab api k, index = k\<rparr>)"
proof -
  let ?N = "numChunksOf ab"
  let ?w = "CONCURRENCY_LIMIT * (j div CONCURRENCY_LIMIT)"
  let ?job1 = "(newFile name)\<lparr>status := PROCESSING, progress := 5\<rparr>"
  let ?job2 = "(newFile name)\<lparr>status := PROCESSING, progress := 5, status := TRANSCRIBING\<rparr>"
  obtain evs jobF res where run: "loopFrom ab api lat ?N 0 ?job2 = (evs, jobF, res)"
    and trace: "processFile (Some (newFile name)) (Inr ab) api lat =
       Published ?job1 # Published ?job2 # evs @
       [Published (case res of
           Inl e \<Rightarrow> catchHandler e jobF
         | Inr slots \<Rightarrow> jobF\<lparr>status := DONE, progress := 100,
                              transcription := sortedTurns slots\<rparr>)]"
    by (rule processFile_run)
  let ?final = "case res of
           Inl e \<Rightarrow> catchHandler e jobF
         | Inr slots \<Rightarrow> jobF\<lparr>status := DONE, progress := 100,
                              transcription := sortedTurns slots\<rparr>"
  have lastp: "last (publishedOf (processFile (Some (newFile name)) (Inr ab) api lat)) = ?final"
    and lastt: "last (processFile (Some (newFile name)) (Inr ab) api lat) = Published ?final"
    unfolding trace by (rule trace_last_published)+
  have in_evs: "Issued j' \<in> set evs"
    if "Issued j' \<in> set (processFile (Some (newFile name)) (Inr ab) api lat)" for j'
    using that unfolding trace by auto
  have j: "Issued j \<in> set evs" using issued by (rule in_evs)
  have jN: "j < ?N" using loop_events_range [OF run] j by blast
  from div_wave_bound [OF jN] have wlen: "j div CONCURRENCY_LIMIT < length (waves ?N)"
    by (simp add: length_waves CONCURRENCY_LIMIT_def)
  have wave: "waves ?N ! (j div CONCURRENCY_LIMIT) = [?w ..< min (?w + CONCURRENCY_LIMIT) ?N]"
    by (rule waves_nth(1) [OF wlen])
  have dvd0: "CONCURRENCY_LIMIT dvd 0" by simp
  note lf = loop_failure [OF run dvd0 j fails]
  have bound: "\<forall>j'. Issued j' \<in> set evs \<longrightarrow> j' < ?w + CONCURRENCY_LIMIT"
    by (rule conjunct1 [OF conjunct2 [OF lf]])
  have jobF: "jobF = (if ?w = 0 then ?job2 else waveJob ab api ?N ?w ?job2)"
    by (rule conjunct1 [OF conjunct2 [OF conjunct2 [OF lf]]])
  have earlier: "\<forall>k. 0 \<le> k \<and> k < ?w \<longrightarrow> (\<exists>r. chunkTask ab api k = Inr r)"
    by (rule conjunct2 [OF conjunct2 [OF conjunct2 [OF lf]]])
  from conjunct1 [OF lf]
  obtain pre k post e' where
    order: "sort_key lat [?w ..< min (?w + CONCURRENCY_LIMIT) ?N] = pre @ k # post"
    and pre: "\<forall>c \<in> set pre. \<exists>r. chunkTask ab api c = Inr r"
    and k: "chunkTask ab api k = Inl e'" and res: "res = Inl e'"
    by blast
  from chunkTask_rejection_is_marker [OF k] obtain s where
    s: "transcribeAudio (api k) = Inr s" "startsWith s ''Error:''" "e' = ErrorInstance s"
    by blast
  have final: "?final = catchHandler (ErrorInstance s) jobF" using res s(3) by simp
  have err: "error ?final = Some s" and st: "status ?final = ERROR"
    and pr: "progress ?final = 0" and tr: "transcription ?final = transcription jobF"
    unfolding final by (simp_all add: catchHandler_def)
  have trF: "transcription jobF = map (chunkTurn ab api) [0 ..< ?w]"
    unfolding jobF by (simp add: waveJob_fields newFile_def)
  have first: "\<exists>pre k post s.
           sort_key lat (waves ?N ! (j div CONCURRENCY_LIMIT)) = pre @ k # post \<and>
           (\<forall>c \<in> set pre. \<exists>r. chunkTask ab api c = Inr r) \<and>
           chunkTask ab api k = Inl (ErrorInstance s) \<and>
           transcribeAudio (api k) = Inr s \<and> startsWith s ''Error:'' \<and>
           error ?final = Some s"
    unfolding wave using order pre k s err by blast
  have only: "\<exists>s. e = ErrorInstance s \<and> error ?final = Some s"
    if "\<forall>k \<in> set (waves ?N ! (j div CONCURRENCY_LIMIT)).
            (\<exists>e'. chunkTask ab api k = Inl e') \<longrightarrow> k = j"
  proof -
    have "set (sort_key lat [?w ..< min (?w + CONCURRENCY_LIMIT) ?N]) = set (pre @ k # post)"
      by (simp only: order)
    then have "k \<in> set (waves ?N ! (j div CONCURRENCY_LIMIT))" unfolding wave by auto
    with that k have "k = j" by blast
    with k fails s(3) have "e = ErrorInstance s" by simp
    with err show ?thesis by blast
  qed
  have later: "j' div CONCURRENCY_LIMIT \<le> j div CONCURRENCY_LIMIT"
    if "Issued j' \<in> set (processFile (Some (newFile name)) (Inr ab) api lat)" for j'
  proof -
    from in_evs [OF that] bound have "j' < ?w + CONCURRENCY_LIMIT" by blast
    then have "j' < (j div 10 + 1) * 10" by (simp add: CONCURRENCY_LIMIT_def)
    then have "j' div 10 < j div 10 + 1" by (rule less_mult_imp_div_less)
    then show ?thesis by (simp add: CONCURRENCY_LIMIT_def)
  qed
  have before: "chunkTask ab api k = Inr \<lparr>turn = chunkTurn ab api k, index = k\<rparr>"
    if "k < ?w" for k
  proof -
    from earlier that obtain r where r: "chunkTask ab api k = Inr r" by blast
    then show ?thesis using chunkTask_ok [OF r] by simp
  qed
  have l: "\<forall>j'. Issued j' \<in> set (processFile (Some (newFile name)) (Inr ab) api lat) \<longrightarrow>
            j' div CONCURRENCY_LIMIT \<le> j div CONCURRENCY_LIMIT"
    using later by blast
  have b: "\<forall>k < ?w. chunkTask ab api k = Inr \<lparr>turn = chunkTurn ab api k, index = k\<rparr>"
    using before by blast
  have o: "(\<forall>k \<in> set (waves ?N ! (j div CONCURRENCY_LIMIT)).
            (\<exists>e'. chunkTask ab api k = Inl e') \<longrightarrow> k = j) \<longrightarrow>
          (\<exists>s. e = ErrorInstance s \<and> error ?final = Some s)"
    using only by blast
  have t: "transcription ?final = map (chunkTurn ab api) [0 ..< ?w]"
    using tr trF by simp
  show ?thesis
    unfolding lastp lastt
    by (rule conjI [OF refl conjI [OF st conjI [OF pr conjI [OF first conjI [OF o
          conjI [OF l conjI [OF t b]]]]]]])
qed


text \<open>
  Claim C4 as stated fails when two segments of one wave fail: segment 10 of the sample
  job is attempted and fails with the description "Error: API call failed - quota", but
  segment 11 of the same wave fails first, and the stored message is "Error: busy".
\<close>

theorem fail_fast_counterexample:
  "Issued 10 \<in> set (processFile (Some (newFile ''a.wav'')) (Inr demoBuffer) demoFailingApi
      demoLatency)
   \<and> chunkTask demoBuffer demoFailingApi 10 =
       Inl (ErrorInstance ''Error: API call failed - quota'')
   \<and> error (last (publishedOf (processFile (Some (newFile ''a.wav'')) (Inr demoBuffer)
        demoFailingApi demoLatency))) = Some ''Error: busy''
   \<and> error (last (publishedOf (processFile (Some (newFile ''a.wav'')) (Inr demoBuffer)
        demoFailingApi demoLatency))) \<noteq> Some ''Error: API call failed - quota''"
  by (simp add: demo_failing_issued demoFailingApi_rejects demo_failing_published
      catchHandler_def)


theorem fail_fast_witness:
  "0 < sampleRate demoBuffer
   \<and> Issued 11 \<in> set (processFile (Some (newFile ''a.wav'')) (Inr demoBuffer) demoFailingApi
        demoLatency)
   \<and> chunkTask demoBuffer demoFailingApi 11 = Inl (ErrorInstance ''Error: busy'')
   \<and> status (last (publishedOf (processFile (Some (newFile ''a.wav'')) (Inr demoBuffer)
        demoFailingApi demoLatency))) = ERROR
   \<and> progress (last (publishedOf (processFile (Some (newFile ''a.wav'')) (Inr demoBuffer)
        demoFailingApi demoLatency))) = 0
   \<and> transcription (last (publishedOf (processFile (Some (newFile ''a.wav''))
        (Inr demoBuffer) demoFailingApi demoLatency))) =
       map (chunkTurn demoBuffer demoFailingApi) [0 ..< 10]"
proof -
  note claim = fail_fast [OF demo_sampleRate demo_failing_issued(2) demoFailingApi_rejects(2)]
  have w: "CONCURRENCY_LIMIT * (11 div CONCURRENCY_LIMIT) = 10"
    by (simp add: CONCURRENCY_LIMIT_def)
  from claim have
    "status (last (publishedOf (processFile (Some (newFile ''a.wav'')) (Inr demoBuffer)
        demoFailingApi demoLatency))) = ERROR"
    "progress (last (publishedOf (processFile (Some (newFile ''a.wav'')) (Inr demoBuffer)
        demoFailingApi demoLatency))) = 0"
    "transcription (last (publishedOf (processFile (Some (newFile ''a.wav''))
        (Inr demoBuffer) demoFailingApi demoLatency))) =
       map (chunkTurn demoBuffer demoFailingApi)
         [0 ..< CONCURRENCY_LIMIT * (11 div CONCURRENCY_LIMIT)]"
    by blast+
  then show ?thesis
    unfolding w
    using demo_sampleRate demo_failing_issued(2) demoFailingApi_rejects(2)
    by (intro conjI)
qed


text \<open>
  Claim C5. Progress formula. Every update published while the job is Transcribing, after
  some request has settled, is the update that follows a completed wave, where
  chunksProcessed is the number of requests settled so far: min(totalChunks, 10 * completed
  waves), the segments of the completed waves. Its progress is 5 + Math.round of the
  double-precision product (chunksProcessed / totalChunks) * 90. That value is within 1 of
  5 + round(90 * chunksProcessed / totalChunks) computed exactly, but need not equal it:
  rounding the quotient can carry the product across a half, as the run below shows.
\<close>

theorem progress_formula:
  assumes sr: "0 < sampleRate ab"
    and pre: "prefix (p @ [Published job]) (processFile (Some queued) (Inr ab) api lat)"
    and st: "status job = TRANSCRIBING"
    and settled: "settledOf p \<noteq> []"
  shows "progress job =
           5 + round (numberTimes
                 (numberDivide (real (length (settledOf p))) (real (numChunksOf ab))) 90)
     \<and> \<bar>progress job
          - (5 + round (90 * real (length (settledOf p)) / real (numChunksOf ab)))\<bar> \<le> 1
     \<and> length (settledOf p) =
           min (numChunksOf ab) (CONCURRENCY_LIMIT * (length (publishedOf p) - 1))
     \<and> mset (settledOf p) =
           mset (concat (take (length (publishedOf p) - 1) (waves (numChunksOf ab))))"
proof -
  let ?N = "numChunksOf ab"
  let ?job1 = "queued\<lparr>status := PROCESSING, progress := 5\<rparr>"
  let ?job2 = "queued\<lparr>status := PROCESSING, progress := 5, status := TRANSCRIBING\<rparr>"
  obtain evs jobF res where run: "loopFrom ab api lat ?N 0 ?job2 = (evs, jobF, res)"
    and trace: "processFile (Some queued) (Inr ab) api lat =
       Published ?job1 # Published ?job2 # evs @
       [Published (case res of
           Inl e \<Rightarrow> catchHandler e jobF
         | Inr slots \<Rightarrow> jobF\<lparr>status := DONE, progress := 100,
                              transcription := sortedTurns slots\<rparr>)]"
    by (rule processFile_run)
  from pre [unfolded trace] show ?thesis
  proof (cases rule: prefix_trace_cases)
    case 1
    with st show ?thesis by simp
  next
    case 2
    with settled show ?thesis by (simp add: settledOf_simps)
  next
    case (3 q)
    let ?c = "length (settledOf q)"
    have sp: "settledOf p = settledOf q" using 3(1) by (simp add: settledOf_simps)
    have pp: "length (publishedOf p) - 1 = Suc (length (publishedOf q))"
      using 3(1) by (simp add: publishedOf_simps)
    from loop_published [OF run 3(2)]
    have job: "job = waveJob ab api ?N ?c ?job2"
      and ms: "mset (settledOf q) = mset [0 ..< ?c]"
      and c: "?c = min ?N (CONCURRENCY_LIMIT * Suc (length (publishedOf q)))"
      by simp_all
    have cN: "?c \<le> ?N" by (subst c) simp
    have N: "0 < ?N" using settled sp cN by (cases "?N") simp_all
    have prog: "progress job = 5 + round (numberTimes (numberDivide (real ?c) (real ?N)) 90)"
      unfolding job by (simp add: waveJob_fields)
    have near: "\<bar>progress job - (5 + round (90 * real ?c / real ?N))\<bar> \<le> 1"
      unfolding prog by (rule progress_near_exact [OF cN N])
    have "[0 ..< ?c] = concat (take (Suc (length (publishedOf q))) (waves ?N))"
      unfolding concat_take_waves using c by (simp add: min.commute)
    with ms have ms': "mset (settledOf q) =
        mset (concat (take (Suc (length (publishedOf q))) (waves ?N)))"
      by (simp only:)
    show ?thesis unfolding sp pp by (intro conjI prog near c ms')
  next
    case 4
    with st show ?thesis by (cases res) (simp_all add: catchHandler_def)
  qed
qed


text \<open>
  The progress is not always 5 + round(90 * chunksProcessed / totalChunks) computed
  exactly. On a recording of 4000 seconds, after the seventh of its twenty waves, 70 of 200
  requests have settled; 70 / 200 rounds to a double just below 0.35, its product with 90
  to one just below 31.5, and the update carries 36, where the exact value gives 37.
\<close>

theorem progress_formula_counterexample:
  "\<exists>p job.
     prefix (p @ [Published job])
       (processFile (Some (newFile ''b.wav'')) (Inr hourBuffer) demoApi demoLatency)
     \<and> status job = TRANSCRIBING
     \<and> length (settledOf p) = 70
     \<and> numChunksOf hourBuffer = 200
     \<and> progress job = 36
     \<and> 5 + round (90 * real (length (settledOf p)) / real (numChunksOf hourBuffer)) = (37::int)"
proof -
  let ?job1 = "(newFile ''b.wav'')\<lparr>status := PROCESSING, progress := 5\<rparr>"
  let ?job2 = "(newFile ''b.wav'')\<lparr>status := PROCESSING, progress := 5, status := TRANSCRIBING\<rparr>"
  let ?job = "waveJob hourBuffer demoApi 200 70 ?job2"
  obtain evs jobF res
    where run: "loopFrom hourBuffer demoApi demoLatency (numChunksOf hourBuffer) 0 ?job2 =
        (evs, jobF, res)"
    and trace: "processFile (Some (newFile ''b.wav'')) (Inr hourBuffer) demoApi demoLatency =
       Published ?job1 # Published ?job2 # evs @
       [Published (case res of
           Inl e \<Rightarrow> catchHandler e jobF
         | Inr slots \<Rightarrow> jobF\<lparr>status := DONE, progress := 100,
                              transcription := sortedTurns slots\<rparr>)]"
    by (rule processFile_run)
  have k: "0 + CONCURRENCY_LIMIT * 6 < 200" by (simp add: CONCURRENCY_LIMIT_def)
  have ok: "\<forall>c < 200. \<exists>r. chunkTask hourBuffer demoApi c = Inr r" using demoApi_ok by blast
  from loop_ok_prefix [OF ok k run [unfolded hour_numChunks]]
  obtain q where q: "prefix (q @ [Published ?job]) evs" "length (settledOf q) = 70"
    by (auto simp: CONCURRENCY_LIMIT_def)
  let ?p = "Published ?job1 # Published ?job2 # q"
  have "prefix (?p @ [Published ?job])
      (processFile (Some (newFile ''b.wav'')) (Inr hourBuffer) demoApi demoLatency)"
    unfolding trace using q(1) by (auto simp: prefix_def)
  moreover have "status ?job = TRANSCRIBING" by (simp add: waveJob_fields)
  moreover have "length (settledOf ?p) = 70" using q(2) by (simp add: settledOf_simps)
  moreover have "progress ?job = 36" by (simp add: waveJob_fields hour_percent)
  moreover have "5 + round (90 * real (70::nat) / real (200::nat)) = (37::int)"
    by (simp add: round_def)
  ultimately show ?thesis unfolding hour_numChunks by (intro exI [of _ ?p] exI [of _ ?job]) simp
qed


theorem progress_formula_witness:
  "0 < sampleRate demoBuffer
   \<and> prefix
       ((Published ((newFile ''a.wav'')\<lparr>status := PROCESSING, progress := 5\<rparr>) #
         Published demoJob #
         map Issued [0 ..< 10] @ map Settled (sort_key demoLatency [0 ..< 10])) @
        [Published (waveJob demoBuffer demoApi 12 10 demoJob)])
       (processFile (Some (newFile ''a.wav'')) (Inr demoBuffer) demoApi demoLatency)
   \<and> status (waveJob demoBuffer demoApi 12 10 demoJob) = TRANSCRIBING
   \<and> settledOf
       (Published ((newFile ''a.wav'')\<lparr>status := PROCESSING, progress := 5\<rparr>) #
         Published demoJob #
         map Issued [0 ..< 10] @ map Settled (sort_key demoLatency [0 ..< 10])) \<noteq> []
   \<and> progress (waveJob demoBuffer demoApi 12 10 demoJob) = 80"
proof -
  let ?p = "Published ((newFile ''a.wav'')\<lparr>status := PROCESSING, progress := 5\<rparr>) #
         Published demoJob #
         map Issued [0 ..< 10] @ map Settled (sort_key demoLatency [0 ..< 10])"
  have st: "status (waveJob demoBuffer demoApi 12 10 demoJob) = TRANSCRIBING"
    by (simp add: waveJob_fields demo_status)
  have ne: "settledOf ?p \<noteq> []"
    by (simp only: demo_wave1_settled) simp
  have len: "length (settledOf ?p) = 10"
    by (simp only: demo_wave1_settled) simp
  from progress_formula [OF demo_sampleRate demo_wave1_prefix [of demoLatency] st ne]
  have "progress (waveJob demoBuffer demoApi 12 10 demoJob) =
          5 + round (numberTimes
                (numberDivide (real (length (settledOf ?p))) (real (numChunksOf demoBuffer))) 90)"
    by blast
  then have "progress (waveJob demoBuffer demoApi 12 10 demoJob) = 80"
    unfolding len demo_numChunks by (simp add: demo_percent)
  then show ?thesis
    using demo_sampleRate demo_wave1_prefix [of demoLatency] st ne by (intro conjI)
qed


text \<open>
  Claim C6. Progress monotonicity. For every run of processFile (job found or not, decode
  succeeding or failing), the progress values published while the status is Transcribing
  are non-decreasing, every published progress lies in 0..100, and a published progress
  is 100 exactly when the status is Done.
\<close>

theorem progress_monotone:
  assumes "\<forall>ab. decoded = Inr ab \<longrightarrow> 0 < sampleRate ab"
  shows "sorted (map progress (filter (\<lambda>job. status job = TRANSCRIBING)
             (publishedOf (processFile fileItem decoded api lat))))
     \<and> (\<forall>job \<in> set (publishedOf (processFile fileItem decoded api lat)).
           (progress job = 100 \<longleftrightarrow> status job = DONE) \<and>
           0 \<le> progress job \<and> progress job \<le> 100)"
proof (cases fileItem)
  case None
  then show ?thesis by (simp add: processFile_def publishedOf_simps)
next
  case (Some queued)
  show ?thesis
  proof (cases decoded)
    case (Inl e)
    with Some show ?thesis
      by (simp add: processFile_def Let_def publishedOf_simps catchHandler_def)
  next
    case (Inr ab)
    let ?N = "numChunksOf ab"
    let ?job1 = "queued\<lparr>status := PROCESSING, progress := 5\<rparr>"
    let ?job2 = "queued\<lparr>status := PROCESSING, progress := 5, status := TRANSCRIBING\<rparr>"
    obtain evs jobF res where run: "loopFrom ab api lat ?N 0 ?job2 = (evs, jobF, res)"
      and trace: "processFile (Some queued) (Inr ab) api lat =
         Published ?job1 # Published ?job2 # evs @
         [Published (case res of
             Inl e \<Rightarrow> catchHandler e jobF
           | Inr slots \<Rightarrow> jobF\<lparr>status := DONE, progress := 100,
                                transcription := sortedTurns slots\<rparr>)]"
      by (rule processFile_run)
    let ?final = "case res of
             Inl e \<Rightarrow> catchHandler e jobF
           | Inr slots \<Rightarrow> jobF\<lparr>status := DONE, progress := 100,
                                transcription := sortedTurns slots\<rparr>"
    let ?pubs = "publishedOf evs"
    have pub: "publishedOf (processFile fileItem decoded api lat) =
                 ?job1 # ?job2 # ?pubs @ [?final]"
      unfolding Some Inr trace by (simp add: publishedOf_simps)
    from loop_published_chain [OF run]
    have sorted: "sorted (map progress ?pubs)"
      and wave: "\<forall>j \<in> set ?pubs. \<exists>c. c \<le> ?N \<and> 0 < ?N \<and> j = waveJob ab api ?N c ?job2"
      by auto
    have in_loop: "status j = TRANSCRIBING \<and> 5 \<le> progress j \<and> progress j \<le> 95"
      if "j \<in> set ?pubs" for j
    proof -
      from wave that obtain c where c: "c \<le> ?N" "0 < ?N" "j = waveJob ab api ?N c ?job2"
        by blast
      show ?thesis
        unfolding c(3) using progress_lower [OF c(1,2)] progress_upper [OF c(1,2)]
        by (simp add: waveJob_fields)
    qed
    have final: "(status ?final = ERROR \<and> progress ?final = 0) \<or>
                 (status ?final = DONE \<and> progress ?final = 100)"
      by (cases res) (simp_all add: catchHandler_def)
    have "filter (\<lambda>job. status job = TRANSCRIBING) ?pubs = ?pubs"
      using in_loop by (simp add: filter_id_conv)
    then have filt: "filter (\<lambda>job. status job = TRANSCRIBING)
               (publishedOf (processFile fileItem decoded api lat)) = ?job2 # ?pubs"
      unfolding pub using final by auto
    have first: "sorted (map progress (?job2 # ?pubs))"
      using sorted in_loop by simp
    have each: "(progress job = 100 \<longleftrightarrow> status job = DONE) \<and>
           0 \<le> progress job \<and> progress job \<le> 100"
      if "job \<in> set (?job1 # ?job2 # ?pubs @ [?final])" for job
    proof -
      from that consider "job = ?job1" | "job = ?job2" | "job \<in> set ?pubs" | "job = ?final"
        by auto
      then show ?thesis
      proof cases
        case 3
        then show ?thesis using in_loop by fastforce
      next
        case 4
        then show ?thesis using final by auto
      qed simp_all
    qed
    show ?thesis unfolding filt using first each unfolding pub by blast
  qed
qed


theorem progress_monotone_witness:
  "0 < sampleRate demoBuffer
   \<and> sorted (map progress (filter (\<lambda>job. status job = TRANSCRIBING)
        (publishedOf (processFile (Some (newFile ''a.wav'')) (Inr demoBuffer) demoApi
           demoLatency))))
   \<and> status (last (publishedOf (processFile (Some (newFile ''a.wav'')) (Inr demoBuffer)
        demoApi demoLatency))) = DONE
   \<and> progress (last (publishedOf (processFile (Some (newFile ''a.wav'')) (Inr demoBuffer)
        demoApi demoLatency))) = 100"
proof -
  let ?t = "processFile (Some (newFile ''a.wav'')) (Inr demoBuffer) demoApi demoLatency"
  have hyp: "\<forall>ab. (Inr demoBuffer :: JsThrown + AudioBuffer) = Inr ab \<longrightarrow> 0 < sampleRate ab"
    using demo_sampleRate by simp
  note claim = progress_monotone [OF hyp, where fileItem = "Some (newFile ''a.wav'')"
      and api = demoApi and lat = demoLatency]
  have fin: "status (last (publishedOf ?t)) = DONE"
    by (simp add: demo_published)
  have mem: "last (publishedOf ?t) \<in> set (publishedOf ?t)"
    by (simp add: demo_published)
  from conjunct2 [OF claim] mem fin have "progress (last (publishedOf ?t)) = 100"
    by blast
  then show ?thesis using demo_sampleRate conjunct1 [OF claim] fin by (intro conjI)
qed


text \<open>
  Claim C7. Turn-complete finalization. In every state that a timed run of the component
  reaches, a turn-complete event leaves no active turn. If there was no active turn, or
  its accumulated text is empty or white space only, the finalized-turn list is unchanged.
  If the text has a non-white-space character, exactly one turn is appended: the active
  turn with endTime = (now - sessionStart) / 1000 seconds, which is at least its
  startTime. A message that carries only the turn-complete flag does exactly this.
\<close>

theorem turn_complete_finalization:
  assumes run: "timedRun events now"
  shows "currentTurn (onTurnComplete now (runLive events)) = None
    \<and> (currentTurn (runLive events) = None \<longrightarrow>
          transcript (onTurnComplete now (runLive events)) = transcript (runLive events))
    \<and> (\<forall>t. currentTurn (runLive events) = Some t \<and> whitespaceOnly (text t) \<longrightarrow>
          transcript (onTurnComplete now (runLive events)) = transcript (runLive events))
    \<and> (\<forall>t. currentTurn (runLive events) = Some t \<and> \<not> whitespaceOnly (text t) \<longrightarrow>
          transcript (onTurnComplete now (runLive events)) =
            transcript (runLive events) @
              [\<lparr>startTime = startTime t, text = text t,
                endTime = elapsedTime now (runLive events)\<rparr>] \<and>
          startTime t \<le> elapsedTime now (runLive events))
    \<and> (\<forall>start. recordingStartTimeRef (runLive events) = Some start \<longrightarrow>
          elapsedTime now (runLive events) = (now - start) / 1000)
    \<and> (\<forall>audio. onmessage now
            \<lparr>inputTranscriptionText = None, turnComplete = True, modelAudio = audio\<rparr>
            (runLive events) = onTurnComplete now (runLive events))"
proof -
  let ?s = "runLive events"
  have inv: "turnStamped now ?s" using run by (rule turnStamped_run)
  have stamped: "startTime t \<le> elapsedTime now ?s" if "currentTurn ?s = Some t" for t
    using inv that by (simp add: turnStamped_def)
  have a: "\<forall>t. currentTurn ?s = Some t \<and> whitespaceOnly (text t) \<longrightarrow>
          transcript (onTurnComplete now ?s) = transcript ?s"
    using onTurnComplete_fields(3) by blast
  have b: "\<forall>t. currentTurn ?s = Some t \<and> \<not> whitespaceOnly (text t) \<longrightarrow>
          transcript (onTurnComplete now ?s) =
            transcript ?s @
              [\<lparr>startTime = startTime t, text = text t, endTime = elapsedTime now ?s\<rparr>] \<and>
          startTime t \<le> elapsedTime now ?s"
    using onTurnComplete_fields(4) stamped by blast
  have c: "\<forall>start. recordingStartTimeRef ?s = Some start \<longrightarrow>
          elapsedTime now ?s = (now - start) / 1000"
    by (simp add: elapsedTime_def)
  have d: "\<forall>audio. onmessage now
            \<lparr>inputTranscriptionText = None, turnComplete = True, modelAudio = audio\<rparr> ?s =
          onTurnComplete now ?s"
    by (simp add: onmessage_def)
  have e: "currentTurn ?s = None \<longrightarrow> transcript (onTurnComplete now ?s) = transcript ?s"
    using onTurnComplete_fields(2) by blast
  show ?thesis
    by (rule conjI [OF onTurnComplete_fields(1) conjI [OF e conjI [OF a conjI [OF b
          conjI [OF c d]]]]])
qed


theorem turn_complete_finalization_witness:
  "timedRun demoEvents 3500
   \<and> currentTurn (runLive demoEvents) = Some \<lparr>startTime = 1 / 2, text = ''Hello world''\<rparr>
   \<and> \<not> whitespaceOnly ''Hello world''
   \<and> transcript (onTurnComplete 3500 (runLive demoEvents)) =
       [\<lparr>startTime = 1 / 2, text = ''Hello world'', endTime = 5 / 2\<rparr>]
   \<and> currentTurn (onTurnComplete 3500 (runLive demoEvents)) = None
   \<and> timedRun demoBlankEvents 3500
   \<and> currentTurn (runLive demoBlankEvents) = Some \<lparr>startTime = 1 / 2, text = ''  ''\<rparr>
   \<and> whitespaceOnly ''  ''
   \<and> transcript (onTurnComplete 3500 (runLive demoBlankEvents)) = []
   \<and> currentTurn (onTurnComplete 3500 (runLive demoBlankEvents)) = None"
proof -
  note spoken = turn_complete_finalization [OF demo_timed(1)]
  note blank = turn_complete_finalization [OF demo_timed(2)]
  have t: "currentTurn (runLive demoEvents) = Some \<lparr>startTime = 1 / 2, text = ''Hello world''\<rparr>"
    by (simp add: demo_live)
  have tb: "currentTurn (runLive demoBlankEvents) = Some \<lparr>startTime = 1 / 2, text = ''  ''\<rparr>"
    by (simp add: demo_blank_live)
  from spoken t demo_texts(1)
  have "transcript (onTurnComplete 3500 (runLive demoEvents)) =
      transcript (runLive demoEvents) @
        [\<lparr>startTime = startTime \<lparr>startTime = 1 / 2, text = ''Hello world''\<rparr>,
          text = text \<lparr>startTime = 1 / 2, text = ''Hello world''\<rparr>,
          endTime = elapsedTime 3500 (runLive demoEvents)\<rparr>]"
    by simp
  then have a: "transcript (onTurnComplete 3500 (runLive demoEvents)) =
       [\<lparr>startTime = 1 / 2, text = ''Hello world'', endTime = 5 / 2\<rparr>]"
    by (simp add: demo_live elapsedTime_def)
  from blank tb demo_texts(2)
  have "transcript (onTurnComplete 3500 (runLive demoBlankEvents)) =
      transcript (runLive demoBlankEvents)"
    by simp
  then have b: "transcript (onTurnComplete 3500 (runLive demoBlankEvents)) = []"
    by (simp add: demo_blank_live)
  show ?thesis
    using demo_timed t tb demo_texts a b conjunct1 [OF spoken] conjunct1 [OF blank]
    by (intro conjI)
qed


text \<open>
  Claim C8. Stop finalizes the in-progress turn. The code attempts this and misses it:
  stopRecording queues an updater that would append the active turn with
  endTime = (now - sessionStart) / 1000 when the recording start reference is set, and its
  next statement clears that reference, so the updater finds none and appends nothing.
  On the sample session (started at 1000 ms, with the fragments "Hello " and "world"
  received), a stop at 3500 ms stops the tracks, disconnects the processor, closes both
  audio contexts and the session, and clears the active turn and the reference, but the
  finalized-turn list stays empty: the turn "Hello world", started at 0.5 s, is not
  appended with endTime 2.5 s. A channel error loses the turn in the same way.
\<close>

theorem stop_drops_turn:
  "timedRun demoEvents 3500
   \<and> recordingStartTimeRef (runLive demoEvents) = Some 1000
   \<and> currentTurn (runLive demoEvents) = Some \<lparr>startTime = 1 / 2, text = ''Hello world''\<rparr>
   \<and> \<not> whitespaceOnly ''Hello world''
   \<and> transcript (runLive demoEvents) = []
   \<and> transcript (snd (stopRecording 3500 (runLive demoEvents))) = []
   \<and> transcript (snd (stopRecording 3500 (runLive demoEvents))) \<noteq>
       transcript (runLive demoEvents) @
         [\<lparr>startTime = 1 / 2, text = ''Hello world'', endTime = (3500 - 1000) / 1000\<rparr>]
   \<and> currentTurn (snd (stopRecording 3500 (runLive demoEvents))) = None
   \<and> recordingStartTimeRef (snd (stopRecording 3500 (runLive demoEvents))) = None
   \<and> fst (stopRecording 3500 (runLive demoEvents)) =
       [StopTracks, DisconnectProcessor, CloseInputContext, CloseOutputContext, CloseSession]
   \<and> transcript (onerror 3500 None (runLive demoEvents)) = []
   \<and> currentTurn (onerror 3500 None (runLive demoEvents)) = None"
proof -
  have t: "transcript (runLive demoEvents) = []"
    and live: "recordingStartTimeRef (runLive demoEvents) = Some 1000"
    and turn: "currentTurn (runLive demoEvents) =
      Some \<lparr>startTime = 1 / 2, text = ''Hello world''\<rparr>"
    by (simp_all add: demo_live)
  have stopped: "transcript (snd (stopRecording 3500 (runLive demoEvents))) = []"
    by (simp add: stop_fields t)
  have differs: "transcript (snd (stopRecording 3500 (runLive demoEvents))) \<noteq>
       transcript (runLive demoEvents) @
         [\<lparr>startTime = 1 / 2, text = ''Hello world'', endTime = (3500 - 1000) / 1000\<rparr>]"
    unfolding stopped by simp
  have effects: "fst (stopRecording 3500 (runLive demoEvents)) =
       [StopTracks, DisconnectProcessor, CloseInputContext, CloseOutputContext, CloseSession]"
    by (simp add: stopRecording_eq demo_live)
  have err: "transcript (onerror 3500 None (runLive demoEvents)) = []"
    "currentTurn (onerror 3500 None (runLive demoEvents)) = None"
    by (simp_all add: onerror_def stop_fields t)
  show ?thesis
    using demo_timed(1) live turn demo_texts(1) t stopped differs stop_fields(1,2) effects err
    by (intro conjI)
qed


text \<open>
  Claim C9. Stop idempotence. When the stream, processor, audio-context and session
  handles are released and there is no active turn, stopRecording performs no effect and
  leaves the finalized-turn list, the active turn and every resource handle unchanged; it
  only (re)sets the recording flag and the start reference, so on a stopped session it
  changes nothing at all. Stopping any state twice gives the same state as stopping it
  once, with no effect the second time.
\<close>

theorem stop_idempotent:
  assumes "streamRef s = None" "scriptProcessorRef s = None" "audioContextRef s = None"
    "outputAudioContextRef s = None" "sessionPromiseRef s = None" "currentTurn s = None"
  shows "fst (stopRecording now s) = []
    \<and> snd (stopRecording now s) = s\<lparr>isRecording := False, recordingStartTimeRef := None\<rparr>
    \<and> transcript (snd (stopRecording now s)) = transcript s
    \<and> currentTurn (snd (stopRecording now s)) = currentTurn s
    \<and> streamRef (snd (stopRecording now s)) = streamRef s
    \<and> scriptProcessorRef (snd (stopRecording now s)) = scriptProcessorRef s
    \<and> audioContextRef (snd (stopRecording now s)) = audioContextRef s
    \<and> outputAudioContextRef (snd (stopRecording now s)) = outputAudioContextRef s
    \<and> outputGainNodeRef (snd (stopRecording now s)) = outputGainNodeRef s
    \<and> sessionPromiseRef (snd (stopRecording now s)) = sessionPromiseRef s
    \<and> (\<not> isRecording s \<and> recordingStartTimeRef s = None \<longrightarrow> snd (stopRecording now s) = s)
    \<and> fst (stopRecording now' (snd (stopRecording now any))) = []
    \<and> snd (stopRecording now' (snd (stopRecording now any))) = snd (stopRecording now any)"
proof -
  have rel: "released s = s\<lparr>isRecording := False\<rparr>"
    using assms by (simp add: released_def)
  have none: "u\<lparr>currentTurn := None\<rparr> = u" if "currentTurn u = None" for u :: LiveState
    using that by (cases u) simp
  have eff: "fst (stopRecording now s) = []"
    using assms by (simp add: stopRecording_eq)
  have "snd (stopRecording now s) =
      (s\<lparr>isRecording := False, recordingStartTimeRef := None\<rparr>)\<lparr>currentTurn := None\<rparr>"
    by (simp add: stopRecording_eq rel)
  also have "\<dots> = s\<lparr>isRecording := False, recordingStartTimeRef := None\<rparr>"
    by (rule none) (simp add: assms)
  finally have st:
    "snd (stopRecording now s) = s\<lparr>isRecording := False, recordingStartTimeRef := None\<rparr>" .
  have same: "\<not> isRecording s \<and> recordingStartTimeRef s = None \<longrightarrow> snd (stopRecording now s) = s"
    unfolding st by simp
  let ?u = "snd (stopRecording now any)"
  have again_eff: "fst (stopRecording now' ?u) = []"
    by (simp add: stopRecording_eq [of now' ?u] stop_fields)
  have relu: "released ?u = ?u"
    by (simp add: released_def stop_fields)
  have "snd (stopRecording now' ?u) =
      (?u\<lparr>recordingStartTimeRef := None\<rparr>)\<lparr>currentTurn := None\<rparr>"
    by (simp add: stopRecording_eq [of now' ?u] relu)
  also have "\<dots> = ?u\<lparr>recordingStartTimeRef := None\<rparr>"
    by (rule none) (simp add: stop_fields)
  also have "\<dots> = ?u" by (simp add: stop_fields)
  finally have again: "snd (stopRecording now' ?u) = ?u" .
  show ?thesis
    unfolding st using eff same again_eff again unfolding st by simp
qed


theorem stop_idempotent_witness:
  "streamRef (snd (stopRecording 3500 (runLive demoEvents))) = None
   \<and> scriptProcessorRef (snd (stopRecording 3500 (runLive demoEvents))) = None
   \<and> audioContextRef (snd (stopRecording 3500 (runLive demoEvents))) = None
   \<and> outputAudioContextRef (snd (stopRecording 3500 (runLive demoEvents))) = None
   \<and> sessionPromiseRef (snd (stopRecording 3500 (runLive demoEvents))) = None
   \<and> currentTurn (snd (stopRecording 3500 (runLive demoEvents))) = None
   \<and> fst (stopRecording 4000 (snd (stopRecording 3500 (runLive demoEvents)))) = []
   \<and> snd (stopRecording 4000 (snd (stopRecording 3500 (runLive demoEvents)))) =
       snd (stopRecording 3500 (runLive demoEvents))"
proof -
  let ?u = "snd (stopRecording 3500 (runLive demoEvents))"
  have h: "streamRef ?u = None" "scriptProcessorRef ?u = None" "audioContextRef ?u = None"
    "outputAudioContextRef ?u = None" "sessionPromiseRef ?u = None" "currentTurn ?u = None"
    by (simp_all add: stop_fields demo_live)
  have stopped: "\<not> isRecording ?u \<and> recordingStartTimeRef ?u = None"
    by (simp add: stop_fields)
  note claim = stop_idempotent [OF h, of 4000]
  from claim have "fst (stopRecording 4000 ?u) = []" by (rule conjunct1)
  moreover from claim stopped have "snd (stopRecording 4000 ?u) = ?u" by blast
  ultimately show ?thesis using h by (intro conjI)
qed

end
